theory Spec2Isabelle
  imports Complex_Main "HOL-Library.Word" "HOL-Library.Multiset" "HOL-Library.Log_Nat"
    "HOL-Library.Sublist"
begin

section \<open>JavaScript strings and values\<close>

text \<open>
  A JavaScript string is a sequence of UTF-16 code units. String literals of the source
  that are plain ASCII are written \<open>js ''...''\<close>.
\<close>

type_synonym jsstring = "16 word list"

definition js :: "string \<Rightarrow> jsstring" where
  "js s = map (\<lambda>c. word_of_nat (of_char c)) s"

definition NL :: "16 word" where
  "NL = 0x0A"

text \<open>
  \<open>s.split(sep)\<close> for a separator of one code unit: the pieces between the separators,
  so that the empty string gives one empty piece.
\<close>

fun split_js :: "16 word \<Rightarrow> jsstring \<Rightarrow> jsstring list" where
  "split_js sep [] = [[]]"
| "split_js sep (c # cs) =
     (if c = sep then [] # split_js sep cs
      else (case split_js sep cs of
              [] \<Rightarrow> [[c]]
            | l # ls \<Rightarrow> (c # l) # ls))"

text \<open>
  The code units that \<open>String.prototype.trim\<close> removes: the WhiteSpace and
  LineTerminator productions of ECMAScript.
\<close>

definition isWhiteSpace :: "16 word \<Rightarrow> bool" where
  "isWhiteSpace c =
     (c = 0x09 \<or> c = 0x0A \<or> c = 0x0B \<or> c = 0x0C \<or> c = 0x0D \<or> c = 0x20 \<or> c = 0xA0
      \<or> c = 0x1680 \<or> (0x2000 \<le> c \<and> c \<le> 0x200A) \<or> c = 0x2028 \<or> c = 0x2029
      \<or> c = 0x202F \<or> c = 0x205F \<or> c = 0x3000 \<or> c = 0xFEFF)"

definition trim :: "jsstring \<Rightarrow> jsstring" where
  "trim s = rev (dropWhile isWhiteSpace (rev (dropWhile isWhiteSpace s)))"

text \<open>The values a tool input can hold (\<open>Record<string, unknown>\<close>).\<close>

datatype jsvalue =
    JUndefined
  | JNull
  | JBool bool
  | JNumber int
  | JString jsstring
  | JArray "jsvalue list"
  | JObject "(string \<times> jsvalue) list"

section \<open>Tool activities (ToolActivityItem.tsx)\<close>

subsection \<open>Diff statistics\<close>

record DiffStats =
  additions :: int
  deletions :: int

text \<open>
  \<open>computeDiffStats\<close>: only the Edit tool has statistics; an \<open>old_string\<close> or
  \<open>new_string\<close> that is not a string counts as the empty string, and two empty strings
  give \<open>null\<close>.
\<close>

definition stringField :: "(string \<rightharpoonup> jsvalue) \<Rightarrow> string \<Rightarrow> jsstring" where
  "stringField input key = (case input key of Some (JString s) \<Rightarrow> s | _ \<Rightarrow> [])"

definition computeDiffStats :: "jsstring \<Rightarrow> (string \<rightharpoonup> jsvalue) \<Rightarrow> DiffStats option" where
  "computeDiffStats toolName input =
     (if toolName = js ''Edit'' then
        (let oldStr = stringField input ''old_string'';
             newStr = stringField input ''new_string''
         in if oldStr = [] \<and> newStr = [] then None
            else
              (let oldLines = int (length (split_js NL oldStr));
                   newLines = int (length (split_js NL newStr))
               in Some \<lparr>additions = max 0 (newLines - oldLines + 1),
                        deletions = max 0 (oldLines - newLines + 1)\<rparr>))
      else None)"

text \<open>The number of lines of a text block: one more than its line feeds.\<close>

definition lineCount :: "jsstring \<Rightarrow> int" where
  "lineCount s = int (count_list s NL) + 1"

subsection \<open>Activities and groups\<close>

datatype ActivityStatus = Pending | Running | Completed | Error | Backgrounded

text \<open>
  The fields of \<open>ToolActivity\<close> that the functions below read. \<open>done'\<close> is the
  source's \<open>done\<close>; an absent \<open>isError\<close> is falsy and is \<open>False\<close> here.
\<close>

record ToolActivity =
  toolUseId :: jsstring
  toolName :: jsstring
  input :: "string \<rightharpoonup> jsvalue"
  parentToolUseId :: "jsstring option"
  isError :: bool
  done' :: bool

record ActivityGroup =
  parent :: ToolActivity
  children :: "ToolActivity list"

text \<open>
  \<open>ActivityGroupRow.derivedStatus\<close>. The status of one activity comes from
  \<open>getActivityStatus\<close> of the module \<open>@/atoms/agent-atoms\<close>, which is not among the
  sources: it is a parameter here.
\<close>

definition derivedStatus ::
  "(ToolActivity \<Rightarrow> ActivityStatus) \<Rightarrow> ActivityGroup \<Rightarrow> ActivityStatus" where
  "derivedStatus getActivityStatus grp =
     (let selfStatus = getActivityStatus (parent grp) in
      if selfStatus = Completed \<or> selfStatus = Error then selfStatus
      else if length (children grp) > 0 \<and> list_all done' (children grp) then
        (if list_ex isError (children grp) then Error
         else if done' (parent grp) then Completed
         else selfStatus)
      else selfStatus)"

text \<open>
  Modelled from the spec: \<open>getActivityStatus\<close> (module \<open>@/atoms/agent-atoms\<close>, absent from
  the sources). The spec gives the states pending, running, completed, error and
  backgrounded, of which completed and error are terminal, and says that \<open>done\<close> is set
  exactly when a terminal state is reached. An activity that is done is therefore error or
  completed, by its \<open>isError\<close>, and one that is not done is in flight; the spec names no
  field that tells the in-flight states apart, and the model takes running.
\<close>

definition getActivityStatus :: "ToolActivity \<Rightarrow> ActivityStatus" where
  "getActivityStatus a =
     (if done' a then (if isError a then Error else Completed) else Running)"

definition mkActivity :: "string \<Rightarrow> string \<Rightarrow> bool \<Rightarrow> bool \<Rightarrow> ToolActivity" where
  "mkActivity uid name err fin =
     \<lparr>toolUseId = js uid, toolName = js name, input = Map.empty,
      parentToolUseId = None, isError = err, done' = fin\<rparr>"

section \<open>Context usage (ContextUsageBadge.tsx)\<close>

text \<open>
  A JavaScript number is an IEEE 754 binary64 value. The arguments of the component are
  token counts, integers that binary64 holds exactly (as it does every integer up to
  \<open>2^53\<close>), and every value is a rational.
  \<open>binary64 x\<close> is the binary64 value nearest to \<open>x\<close>, a tie going to the even
  significand: the value of a decimal literal, of a product and of a quotient. The limits
  of the binary64 exponent are left out; token counts stay far inside them.
\<close>

text \<open>The integer nearest to a rational, a tie going to the even one.\<close>

definition roundHalfEven :: "rat \<Rightarrow> int" where
  "roundHalfEven x =
     (let f = \<lfloor>x\<rfloor>; r = x - of_int f
      in if r < 1 / 2 then f else if 1 / 2 < r then f + 1 else if even f then f else f + 1)"

text \<open>The binary exponent of a positive rational: the \<open>e\<close> with \<open>2^e \<le> x < 2^(e+1)\<close>.\<close>

definition exponent :: "rat \<Rightarrow> int" where
  "exponent x = (if 1 \<le> x then bitlen \<lfloor>x\<rfloor> - 1 else - bitlen (\<lceil>1 / x\<rceil> - 1))"

text \<open>Rounding to 53 significant bits.\<close>

definition binary64 :: "rat \<Rightarrow> rat" where
  "binary64 x =
     (if x = 0 then 0
      else
        (let ulp = 2 powi (exponent \<bar>x\<bar> - 52)
         in sgn x * of_int (roundHalfEven (\<bar>x\<bar> / ulp)) * ulp))"

definition COMPACT_THRESHOLD_RATIO :: rat where
  "COMPACT_THRESHOLD_RATIO = binary64 0.775"

definition WARNING_RATIO :: rat where
  "WARNING_RATIO = binary64 0.80"

text \<open>
  What the component renders is one of: the spinner shown while compacting, nothing
  (\<open>null\<close>), or the badge with its \<open>isWarning\<close>, \<open>compactThreshold\<close> and
  \<open>usageRatio\<close>.
\<close>

datatype UsageView =
    CompactingSpinner
  | NoBadge
  | Badge bool "int option" "rat option"

definition ContextUsageBadge :: "int option \<Rightarrow> int option \<Rightarrow> bool \<Rightarrow> UsageView" where
  "ContextUsageBadge inputTokens contextWindow isCompacting =
     (if isCompacting then CompactingSpinner
      else
        (case inputTokens of
           None \<Rightarrow> NoBadge
         | Some tokens \<Rightarrow>
             if tokens = 0 \<or> tokens \<le> 0 then NoBadge
             else
               (let compactThreshold =
                      (case contextWindow of
                         None \<Rightarrow> None
                       | Some cw \<Rightarrow>
                           if cw = 0 then None
                           else Some \<lfloor>binary64 (of_int cw * COMPACT_THRESHOLD_RATIO)\<rfloor>);
                    usageRatio =
                      (case compactThreshold of
                         None \<Rightarrow> None
                       | Some ct \<Rightarrow>
                           if ct = 0 then None
                           else Some (binary64 (of_int tokens / of_int ct)));
                    isWarning =
                      (case usageRatio of
                         None \<Rightarrow> False
                       | Some r \<Rightarrow> r \<ge> WARNING_RATIO)
                in Badge isWarning compactThreshold usageRatio)))"

section \<open>The session store (agent session manager)\<close>

subsection \<open>The files\<close>

record AgentSessionMeta =
  id' :: jsstring
  title :: jsstring
  channelId :: "jsstring option"
  workspaceId :: "jsstring option"
  sdkSessionId :: "jsstring option"
  createdAt :: int
  updatedAt :: int

record AgentSessionsIndex =
  version :: int
  sessions :: "AgentSessionMeta list"

definition INDEX_VERSION :: int where
  "INDEX_VERSION = 1"

text \<open>
  The index file is absent, or present with a content that \<open>readFileSync\<close> and
  \<open>JSON.parse\<close> do not turn into a document, or holds an index document. A transcript path
  holds nothing, a text file, or something that is not a readable and writable file (a
  directory, say), on which \<open>readFileSync\<close> and \<open>appendFileSync\<close> throw. \<open>indexWritable\<close>
  says whether \<open>writeFileSync\<close> on the index succeeds.
\<close>

datatype index_file = IndexAbsent | IndexUnparseable | IndexDoc AgentSessionsIndex

datatype file_node = TextFile jsstring | NotAFile

record disk =
  indexFile :: index_file
  indexWritable :: bool
  files :: "jsstring \<rightharpoonup> file_node"

text \<open>
  The three errors the module throws: writing the index failed, appending a message
  failed, and the session of the given id does not exist.
\<close>

datatype error = IndexWriteFailed | AppendFailed | SessionNotFound jsstring

text \<open>What the body of a \<open>try\<close> can throw before the \<open>catch\<close> takes it.\<close>

datatype js_exception = FsError | SyntaxError

subsection \<open>The index\<close>

definition readIndex :: "disk \<Rightarrow> AgentSessionsIndex" where
  "readIndex d =
     (case indexFile d of
        IndexAbsent \<Rightarrow> \<lparr>version = INDEX_VERSION, sessions = []\<rparr>
      | IndexUnparseable \<Rightarrow> \<lparr>version = INDEX_VERSION, sessions = []\<rparr>
      | IndexDoc index \<Rightarrow> index)"

definition writeIndex :: "AgentSessionsIndex \<Rightarrow> disk \<Rightarrow> error + disk" where
  "writeIndex index d =
     (if indexWritable d then Inr (d\<lparr>indexFile := IndexDoc index\<rparr>)
      else Inl IndexWriteFailed)"

text \<open>
  \<open>Array.prototype.sort\<close> with a comparator is a stable sort: an element moves behind
  another only when the comparator puts it strictly after.
\<close>

fun insort_cmp :: "('a \<Rightarrow> 'a \<Rightarrow> int) \<Rightarrow> 'a \<Rightarrow> 'a list \<Rightarrow> 'a list" where
  "insort_cmp cmp x [] = [x]"
| "insort_cmp cmp x (y # ys) =
     (if cmp x y \<le> 0 then x # y # ys else y # insort_cmp cmp x ys)"

definition sort_js :: "('a \<Rightarrow> 'a \<Rightarrow> int) \<Rightarrow> 'a list \<Rightarrow> 'a list" where
  "sort_js cmp xs = foldr (insort_cmp cmp) xs []"

definition listAgentSessions :: "disk \<Rightarrow> AgentSessionMeta list" where
  "listAgentSessions d =
     (let index = readIndex d
      in sort_js (\<lambda>a b. updatedAt b - updatedAt a) (sessions index))"

fun findIndex :: "('a \<Rightarrow> bool) \<Rightarrow> 'a list \<Rightarrow> nat option" where
  "findIndex P [] = None"
| "findIndex P (x # xs) = (if P x then Some 0 else map_option Suc (findIndex P xs))"

text \<open>The default title, \<open>U+65B0 Agent U+4F1A U+8BDD\<close> with its two spaces.\<close>

definition DEFAULT_TITLE :: jsstring where
  "DEFAULT_TITLE = [0x65B0, 0x20] @ js ''Agent'' @ [0x20, 0x4F1A, 0x8BDD]"

text \<open>
  \<open>createAgentSession\<close>. \<open>uuid\<close> is what \<open>randomUUID()\<close> returns and \<open>now\<close> what
  \<open>Date.now()\<close> returns. An absent argument is \<open>None\<close>. The directories that the
  function makes sure of after writing the index (through \<open>config-paths\<close> and the
  workspace manager, both outside the sources) are not part of \<open>disk\<close>.
\<close>

definition createAgentSession ::
  "jsstring \<Rightarrow> int \<Rightarrow> jsstring option \<Rightarrow> jsstring option \<Rightarrow> jsstring option \<Rightarrow> disk
   \<Rightarrow> (error + AgentSessionMeta) \<times> disk" where
  "createAgentSession uuid now title' channelId' workspaceId' d =
     (let index = readIndex d;
          meta = \<lparr>id' = uuid,
                  title = (case title' of
                             None \<Rightarrow> DEFAULT_TITLE
                           | Some t \<Rightarrow> if t = [] then DEFAULT_TITLE else t),
                  channelId = channelId',
                  workspaceId = workspaceId',
                  sdkSessionId = None,
                  createdAt = now,
                  updatedAt = now\<rparr>
      in case writeIndex (index\<lparr>sessions := sessions index @ [meta]\<rparr>) d of
           Inl e \<Rightarrow> (Inl e, d)
         | Inr d' \<Rightarrow> (Inr meta, d'))"

text \<open>
  The \<open>updates\<close> argument of \<open>updateAgentSessionMeta\<close>: each of the four allowed keys is
  absent (\<open>None\<close>) or supplied. A supplied optional field can hold \<open>undefined\<close>, which
  the spread copies like any other value.
\<close>

record SessionUpdates =
  newTitle :: "jsstring option"
  newChannelId :: "jsstring option option"
  newSdkSessionId :: "jsstring option option"
  newWorkspaceId :: "jsstring option option"

definition spreadUpdates :: "AgentSessionMeta \<Rightarrow> SessionUpdates \<Rightarrow> AgentSessionMeta" where
  "spreadUpdates existing updates =
     existing
       \<lparr>title := (case newTitle updates of None \<Rightarrow> title existing | Some t \<Rightarrow> t),
        channelId := (case newChannelId updates of None \<Rightarrow> channelId existing | Some c \<Rightarrow> c),
        sdkSessionId :=
          (case newSdkSessionId updates of None \<Rightarrow> sdkSessionId existing | Some c \<Rightarrow> c),
        workspaceId :=
          (case newWorkspaceId updates of None \<Rightarrow> workspaceId existing | Some w \<Rightarrow> w)\<rparr>"

definition updateAgentSessionMeta ::
  "int \<Rightarrow> jsstring \<Rightarrow> SessionUpdates \<Rightarrow> disk \<Rightarrow> (error + AgentSessionMeta) \<times> disk" where
  "updateAgentSessionMeta now sid updates d =
     (let index = readIndex d
      in case findIndex (\<lambda>s. id' s = sid) (sessions index) of
           None \<Rightarrow> (Inl (SessionNotFound sid), d)
         | Some idx \<Rightarrow>
             (let existing = sessions index ! idx;
                  updated = (spreadUpdates existing updates)\<lparr>updatedAt := now\<rparr>
              in case writeIndex (index\<lparr>sessions := (sessions index)[idx := updated]\<rparr>) d of
                   Inl e \<Rightarrow> (Inl e, d)
                 | Inr d' \<Rightarrow> (Inr updated, d')))"

subsection \<open>The transcripts\<close>

text \<open>
  \<open>getAgentSessionMessagesPath\<close> (module \<open>config-paths\<close>) gives the transcript's path for
  a session id; \<open>JSON.parse\<close> turns a line into a message or throws (\<open>None\<close>);
  \<open>JSON.stringify\<close> writes a message as text. The three are parameters.
\<close>

definition readMessages ::
  "(jsstring \<Rightarrow> 'm option) \<Rightarrow> file_node \<Rightarrow> js_exception + 'm list" where
  "readMessages parse node =
     (case node of
        NotAFile \<Rightarrow> Inl FsError
      | TextFile raw \<Rightarrow>
          (let lines = filter (\<lambda>line. trim line \<noteq> []) (split_js NL raw)
           in case those (map parse lines) of
                None \<Rightarrow> Inl SyntaxError
              | Some ms \<Rightarrow> Inr ms))"

definition getAgentSessionMessages ::
  "(jsstring \<Rightarrow> jsstring) \<Rightarrow> (jsstring \<Rightarrow> 'm option) \<Rightarrow> disk \<Rightarrow> jsstring \<Rightarrow> 'm list" where
  "getAgentSessionMessages getAgentSessionMessagesPath parse d sid =
     (let filePath = getAgentSessionMessagesPath sid
      in case files d filePath of
           None \<Rightarrow> []
         | Some node \<Rightarrow>
             (case readMessages parse node of
                Inl e \<Rightarrow> []
              | Inr ms \<Rightarrow> ms))"

definition appendAgentMessage ::
  "(jsstring \<Rightarrow> jsstring) \<Rightarrow> ('m \<Rightarrow> jsstring) \<Rightarrow> jsstring \<Rightarrow> 'm \<Rightarrow> disk
   \<Rightarrow> (error + unit) \<times> disk" where
  "appendAgentMessage getAgentSessionMessagesPath stringify sid message d =
     (let filePath = getAgentSessionMessagesPath sid;
          line = stringify message @ [NL]
      in case files d filePath of
           None \<Rightarrow> (Inr (), d\<lparr>files := (files d)(filePath \<mapsto> TextFile line)\<rparr>)
         | Some (TextFile content) \<Rightarrow>
             (Inr (), d\<lparr>files := (files d)(filePath \<mapsto> TextFile (content @ line))\<rparr>)
         | Some NotAFile \<Rightarrow> (Inl AppendFailed, d))"

text \<open>Appending the messages of a list in order, stopping at the first failure.\<close>

fun appendAll ::
  "(jsstring \<Rightarrow> jsstring) \<Rightarrow> ('m \<Rightarrow> jsstring) \<Rightarrow> jsstring \<Rightarrow> 'm list \<Rightarrow> disk
   \<Rightarrow> (error + unit) \<times> disk" where
  "appendAll path stringify sid [] d = (Inr (), d)"
| "appendAll path stringify sid (m # ms) d =
     (case appendAgentMessage path stringify sid m d of
        (Inl e, d') \<Rightarrow> (Inl e, d')
      | (Inr u, d') \<Rightarrow> appendAll path stringify sid ms d')"

section \<open>The workspace watcher\<close>

definition DEBOUNCE_MS :: nat where
  "DEBOUNCE_MS = 500"

datatype channel = CAPABILITIES_CHANGED | WORKSPACE_FILES_CHANGED

text \<open>\<open>String.prototype.endsWith\<close> and \<open>includes\<close>.\<close>

definition endsWith :: "jsstring \<Rightarrow> jsstring \<Rightarrow> bool" where
  "endsWith s searchString =
     (length searchString \<le> length s \<and> drop (length s - length searchString) s = searchString)"

fun includes_js :: "jsstring \<Rightarrow> jsstring \<Rightarrow> bool" where
  "includes_js [] searchString = (searchString = [])"
| "includes_js (c # cs) searchString =
     (take (length searchString) (c # cs) = searchString \<or> includes_js cs searchString)"

definition isCapabilitiesChange :: "jsstring \<Rightarrow> bool" where
  "isCapabilitiesChange filename =
     (endsWith filename (js ''/mcp.json'') \<or>
      endsWith filename ([0x5C] @ js ''mcp.json'') \<or>
      includes_js filename (js ''/skills/'') \<or>
      includes_js filename ([0x5C] @ js ''skills/''))"

text \<open>
  The module has one variable, \<open>watcher\<close>. Every call of \<open>startWorkspaceWatcher\<close> that
  reaches \<open>fs.watch\<close> makes an \<open>FSWatcher\<close> and a closure of its own, with the window it
  was given and two timer variables. \<open>started\<close> lists them in the order of the calls, and
  \<open>watcher\<close> points into that list. The clock is simulated, in milliseconds. A pending
  \<open>setTimeout\<close> is an entry of \<open>timeouts\<close>: the time at which it is due, the closure
  whose timer variable holds it, and which of the two variables that is (by the channel
  it sends). \<open>timeouts\<close> is in the order of the \<open>setTimeout\<close> calls: all timers have
  one delay, so that, on a clock that does not go back, this is the order in which they
  are due and in which they fire. A timer variable is \<open>null\<close> when \<open>timeouts\<close> has no
  entry for it.
\<close>

record fswatcher =
  isOpen :: bool
  win :: nat

record timeout =
  due :: nat
  owner :: nat
  kind :: channel

record watcher_module =
  watcher :: "nat option"
  started :: "fswatcher list"
  timeouts :: "timeout list"
  destroyedWindows :: "nat list"

definition initialModule :: watcher_module where
  "initialModule = \<lparr>watcher = None, started = [], timeouts = [], destroyedWindows = []\<rparr>"

text \<open>
  \<open>startWorkspaceWatcher win\<close>: nothing happens when the directory is missing or
  \<open>fs.watch\<close> throws (\<open>watchOk\<close> is false); otherwise a new watcher is opened and
  assigned to \<open>watcher\<close>, and a watcher that \<open>watcher\<close> held before stays open.
  \<open>stopWorkspaceWatcher\<close> closes the watcher that \<open>watcher\<close> holds, if any, and sets the
  variable to \<open>null\<close>; it touches no timer.
\<close>

definition startWorkspaceWatcher :: "nat \<Rightarrow> bool \<Rightarrow> watcher_module \<Rightarrow> watcher_module" where
  "startWorkspaceWatcher w watchOk m =
     (if watchOk
      then m\<lparr>started := started m @ [\<lparr>isOpen = True, win = w\<rparr>],
             watcher := Some (length (started m))\<rparr>
      else m)"

definition stopWorkspaceWatcher :: "watcher_module \<Rightarrow> watcher_module" where
  "stopWorkspaceWatcher m =
     (case watcher m of
        None \<Rightarrow> m
      | Some k \<Rightarrow>
          m\<lparr>started := (started m)[k := (started m ! k)\<lparr>isOpen := False\<rparr>],
            watcher := None\<rparr>)"

text \<open>
  \<open>win.isDestroyed()\<close> for the window of a closure, and the \<open>clearTimeout\<close> and
  \<open>setTimeout\<close> of one timer variable.
\<close>

definition isDestroyed :: "watcher_module \<Rightarrow> nat \<Rightarrow> bool" where
  "isDestroyed m k = (win (started m ! k) \<in> set (destroyedWindows m))"

definition setTimer :: "nat \<Rightarrow> nat \<Rightarrow> channel \<Rightarrow> watcher_module \<Rightarrow> watcher_module" where
  "setTimer now k c m =
     m\<lparr>timeouts := filter (\<lambda>t. \<not> (owner t = k \<and> kind t = c)) (timeouts m)
                      @ [\<lparr>due = now + DEBOUNCE_MS, owner = k, kind = c\<rparr>]\<rparr>"

text \<open>The callback that closure \<open>k\<close> gave to \<open>fs.watch\<close>, run at the time \<open>now\<close>.\<close>

definition onChange :: "nat \<Rightarrow> jsstring option \<Rightarrow> nat \<Rightarrow> watcher_module \<Rightarrow> watcher_module" where
  "onChange now filename k m =
     (case filename of
        None \<Rightarrow> m
      | Some f \<Rightarrow>
          if f = [] \<or> isDestroyed m k then m
          else if isCapabilitiesChange f then setTimer now k CAPABILITIES_CHANGED m
          else setTimer now k WORKSPACE_FILES_CHANGED m)"

text \<open>
  A notification is the time it is sent at, the window it is sent to and its channel. When
  the clock moves to \<open>now\<close>, the timeouts due by then run in their order: each sends its
  notification unless its window is destroyed, and empties its timer variable.
\<close>

type_synonym notification = "nat \<times> nat \<times> channel"

definition notification :: "watcher_module \<Rightarrow> timeout \<Rightarrow> notification" where
  "notification m t = (due t, win (started m ! owner t), kind t)"

definition advance :: "nat \<Rightarrow> watcher_module \<Rightarrow> notification list \<times> watcher_module" where
  "advance now m =
     (map (notification m)
        (filter (\<lambda>t. due t \<le> now \<and> \<not> isDestroyed m (owner t)) (timeouts m)),
      m\<lparr>timeouts := filter (\<lambda>t. \<not> due t \<le> now) (timeouts m)\<rparr>)"

text \<open>
  What happens to the module: a call of \<open>startWorkspaceWatcher\<close>, a call of
  \<open>stopWorkspaceWatcher\<close>, a raw change of the watched directory with its file name (or
  none), which every open watcher reports to its callback, and the destruction of a
  window. A run takes the events with their times; before each event the timeouts due by
  its time run. The deliveries of a run are the notifications sent until the clock
  reaches the horizon.
\<close>

datatype event = Start nat bool | Stop | RawChange "jsstring option" | WindowDestroyed nat

definition rawChange :: "nat \<Rightarrow> jsstring option \<Rightarrow> watcher_module \<Rightarrow> watcher_module" where
  "rawChange now filename m =
     foldl (\<lambda>m' k. if isOpen (started m' ! k) then onChange now filename k m' else m')
       m [0..<length (started m)]"

definition handle :: "nat \<Rightarrow> event \<Rightarrow> watcher_module \<Rightarrow> watcher_module" where
  "handle now e m =
     (case e of
        Start w watchOk \<Rightarrow> startWorkspaceWatcher w watchOk m
      | Stop \<Rightarrow> stopWorkspaceWatcher m
      | RawChange filename \<Rightarrow> rawChange now filename m
      | WindowDestroyed w \<Rightarrow> m\<lparr>destroyedWindows := w # destroyedWindows m\<rparr>)"

fun run :: "watcher_module \<Rightarrow> (nat \<times> event) list \<Rightarrow> notification list \<times> watcher_module" where
  "run m [] = ([], m)"
| "run m ((now, e) # evs) =
     (let (out1, m1) = advance now m;
          m2 = handle now e m1;
          (out2, m3) = run m2 evs
      in (out1 @ out2, m3))"

definition deliveries :: "watcher_module \<Rightarrow> (nat \<times> event) list \<Rightarrow> nat \<Rightarrow> notification list" where
  "deliveries m evs horizon =
     (let (out1, m1) = run m evs;
          (out2, m2) = advance horizon m1
      in out1 @ out2)"

definition changeEvents :: "(nat \<times> jsstring option) list \<Rightarrow> (nat \<times> event) list" where
  "changeEvents changes = map (\<lambda>(t, f). (t, RawChange f)) changes"

subsection \<open>What the watcher is compared with\<close>

text \<open>
  The categories in words: a change is a capability change when its name ends with
  \<open>/mcp.json\<close> or \<open>mcp.json\<close> behind a backslash, or has \<open>/skills/\<close> in it, and a file change when it
  has a name that is none of these. Names with a \<open>skills\<close> segment behind a backslash
  are set apart.
\<close>

definition capabilityName :: "jsstring \<Rightarrow> bool" where
  "capabilityName f =
     (suffix (js ''/mcp.json'') f \<or> suffix ([0x5C] @ js ''mcp.json'') f \<or>
      sublist (js ''/skills/'') f)"

definition backslashSkills :: "jsstring \<Rightarrow> bool" where
  "backslashSkills f = sublist ([0x5C] @ js ''skills'') f"

definition changeKind :: "jsstring option \<Rightarrow> channel option" where
  "changeKind filename =
     (case filename of
        None \<Rightarrow> None
      | Some f \<Rightarrow>
          if f = [] then None
          else if capabilityName f then Some CAPABILITIES_CHANGED
          else Some WORKSPACE_FILES_CHANGED)"

definition timesOf :: "channel \<Rightarrow> (nat \<times> jsstring option) list \<Rightarrow> nat list" where
  "timesOf c changes = map fst (filter (\<lambda>(t, f). changeKind f = Some c) changes)"

text \<open>
  Debouncing in words, on the times of the changes of one category: a notification
  follows, one window later, each change that has no next change of its category within
  the window.
\<close>

fun debounce_spec :: "nat list \<Rightarrow> nat list" where
  "debounce_spec [] = []"
| "debounce_spec [t] = [t + DEBOUNCE_MS]"
| "debounce_spec (t # t' # ts) =
     (if t' < t + DEBOUNCE_MS then debounce_spec (t' # ts)
      else (t + DEBOUNCE_MS) # debounce_spec (t' # ts))"

text \<open>
  The channel whose timer the callback arms for a file name, the times at which the
  changes of a run arm the timer of a channel, the deadlines pending for a channel, and
  the times at which one timer fires, from its pending deadlines and the times at which
  it is armed again.
\<close>

definition category :: "jsstring option \<Rightarrow> channel option" where
  "category filename =
     (case filename of
        None \<Rightarrow> None
      | Some f \<Rightarrow>
          if f = [] then None
          else if isCapabilitiesChange f then Some CAPABILITIES_CHANGED
          else Some WORKSPACE_FILES_CHANGED)"

definition pending :: "channel \<Rightarrow> watcher_module \<Rightarrow> nat list" where
  "pending c m = map due (filter (\<lambda>t. kind t = c) (timeouts m))"

fun firings :: "nat list \<Rightarrow> nat list \<Rightarrow> nat list" where
  "firings ps [] = ps"
| "firings ps (t # ts) = filter (\<lambda>d. d \<le> t) ps @ firings [t + DEBOUNCE_MS] ts"

definition armTimes :: "channel \<Rightarrow> (nat \<times> jsstring option) list \<Rightarrow> nat list" where
  "armTimes c changes = map fst (filter (\<lambda>(t, f). category f = Some c) changes)"

text \<open>
  States of the module: one watcher open, with its window alive and every timeout its
  own; no watcher open and none held; every open watcher held by \<open>watcher\<close>, as when
  each start follows a stop. \<open>afterStop\<close> are the events other than a start and the
  destruction of a window.
\<close>

definition single :: "nat \<Rightarrow> watcher_module \<Rightarrow> bool" where
  "single w m =
     (started m = [\<lparr>isOpen = True, win = w\<rparr>] \<and> w \<notin> set (destroyedWindows m) \<and>
      (\<forall>t \<in> set (timeouts m). owner t = 0))"

definition quiet :: "watcher_module \<Rightarrow> bool" where
  "quiet m = (watcher m = None \<and> (\<forall>k < length (started m). \<not> isOpen (started m ! k)))"

definition afterStop :: "event \<Rightarrow> bool" where
  "afterStop e = (case e of RawChange f \<Rightarrow> True | Stop \<Rightarrow> True | _ \<Rightarrow> False)"

definition held :: "watcher_module \<Rightarrow> bool" where
  "held m = (\<forall>k < length (started m). isOpen (started m ! k) \<longrightarrow> watcher m = Some k)"

section \<open>Sample data\<close>

text \<open>
  Small concrete stores and a small codec, on which the theorems below are run. The codec
  is the fragment of \<open>JSON.stringify\<close> and \<open>JSON.parse\<close> for messages that are strings
  without characters to escape: the text between two double quotes.
\<close>

definition mkSession :: "string \<Rightarrow> string \<Rightarrow> int \<Rightarrow> int \<Rightarrow> AgentSessionMeta" where
  "mkSession sid name created updated =
     \<lparr>id' = js sid, title = js name, channelId = None, workspaceId = None,
      sdkSessionId = None, createdAt = created, updatedAt = updated\<rparr>"

definition mkDisk :: "index_file \<Rightarrow> disk" where
  "mkDisk ix = \<lparr>indexFile = ix, indexWritable = True, files = Map.empty\<rparr>"

definition noUpdates :: SessionUpdates where
  "noUpdates = \<lparr>newTitle = None, newChannelId = None, newSdkSessionId = None,
                newWorkspaceId = None\<rparr>"

definition twoSessions :: disk where
  "twoSessions = mkDisk (IndexDoc \<lparr>version = 1, sessions =
      [mkSession ''a'' ''A'' 1 5, mkSession ''b'' ''B'' 2 9]\<rparr>)"

definition stringifyText :: "jsstring \<Rightarrow> jsstring" where
  "stringifyText m = [0x22] @ m @ [0x22]"

definition parseText :: "jsstring \<Rightarrow> jsstring option" where
  "parseText line =
     (case line of
        [] \<Rightarrow> None
      | q # rest \<Rightarrow>
          if q = 0x22 \<and> rest \<noteq> [] \<and> last rest = 0x22
             \<and> list_all (\<lambda>c. c \<noteq> 0x22 \<and> c \<noteq> 0x5C \<and> 0x20 \<le> c) (butlast rest)
          then Some (butlast rest) else None)"

definition sessionPath :: "jsstring \<Rightarrow> jsstring" where
  "sessionPath sid = js ''agent-sessions/'' @ sid @ js ''.jsonl''"

definition transcriptDisk :: "jsstring \<Rightarrow> disk" where
  "transcriptDisk raw =
     \<lparr>indexFile = IndexAbsent, indexWritable = True,
      files = [sessionPath (js ''s1'') \<mapsto> TextFile raw]\<rparr>"

text \<open>A transcript of two lines, the second one cut short.\<close>

definition cutTranscript :: jsstring where
  "cutTranscript = stringifyText (js ''hello'') @ [NL] @ [0x22, 0x77, 0x6F]"

definition skillFile :: jsstring where
  "skillFile = js ''default/skills/foo/SKILL.md''"

definition otherFile :: jsstring where
  "otherFile = js ''default/s1/notes.txt''"

definition burst :: "(nat \<times> jsstring option) list" where
  "burst = [(0, Some skillFile), (50, Some skillFile), (100, Some skillFile),
            (120, Some otherFile), (130, None), (150, Some skillFile), (200, Some skillFile)]"

definition rootSkillFile :: jsstring where
  "rootSkillFile = js ''skills/foo/SKILL.md''"

definition rootBurst :: "(nat \<times> jsstring option) list" where
  "rootBurst = [(0, Some rootSkillFile), (50, Some rootSkillFile), (100, Some rootSkillFile),
                (150, Some rootSkillFile), (200, Some rootSkillFile)]"

definition armed :: watcher_module where
  "armed = rawChange 0 (Some skillFile) (startWorkspaceWatcher 1 True initialModule)"

section \<open>Properties of the activity view\<close>

lemma length_split_js: "length (split_js sep s) = count_list s sep + 1"
  by (induction s) (auto split: list.splits)

lemma lines_split_js: "int (length (split_js NL s)) = lineCount s"
  by (simp add: length_split_js lineCount_def)

text \<open>
  C1, as the code has it. The parent's own completed or error status is the group's
  status. Otherwise, when there is at least one child and every child is done, the group
  is error if a child has \<open>isError\<close>, and completed only if the parent itself is done;
  in every remaining case the group has the parent's own status.
\<close>

theorem derivedStatus_rules:
  "derivedStatus gas g =
     (if gas (parent g) = Completed \<or> gas (parent g) = Error then gas (parent g)
      else if children g \<noteq> [] \<and> (\<forall>c \<in> set (children g). done' c) then
        (if (\<exists>c \<in> set (children g). isError c) then Error
         else if done' (parent g) then Completed
         else gas (parent g))
      else gas (parent g))"
  by (simp add: derivedStatus_def Let_def list_all_iff list_ex_iff)

theorem derivedStatus_rules_witness:
  "derivedStatus getActivityStatus
     \<lparr>parent = mkActivity ''t1'' ''Task'' False False,
      children = [mkActivity ''a'' ''Edit'' False True, mkActivity ''b'' ''Read'' True True]\<rparr>
   = Error"
  by (simp add: derivedStatus_rules getActivityStatus_def mkActivity_def)

text \<open>
  C1 as the spec states it fails: a parent that is running (not done) with two children
  that are done without error keeps the status running.
\<close>

theorem derivedStatus_running_parent_counterexample:
  "getActivityStatus (mkActivity ''t1'' ''Task'' False False) = Running \<and>
   derivedStatus getActivityStatus
     \<lparr>parent = mkActivity ''t1'' ''Task'' False False,
      children = [mkActivity ''a'' ''Edit'' False True, mkActivity ''b'' ''Read'' False True]\<rparr>
   = Running"
  by (simp add: derivedStatus_def getActivityStatus_def mkActivity_def)

text \<open>
  C9, as the code has it. For an Edit activity whose \<open>old_string\<close> and \<open>new_string\<close> are
  text blocks that are not both empty, the additions are the line-count delta plus one,
  clamped at zero, and the deletions are the opposite delta plus one, clamped at zero.
\<close>

theorem computeDiffStats_edit:
  assumes "inp ''old_string'' = Some (JString old)"
      and "inp ''new_string'' = Some (JString new)"
      and "old \<noteq> [] \<or> new \<noteq> []"
  shows "computeDiffStats (js ''Edit'') inp =
           Some \<lparr>additions = max 0 (lineCount new - lineCount old + 1),
                 deletions = max 0 (lineCount old - lineCount new + 1)\<rparr>"
  using assms
  by (auto simp: computeDiffStats_def stringField_def Let_def lines_split_js)

theorem computeDiffStats_edit_witness:
  "computeDiffStats (js ''Edit'')
     [''old_string'' \<mapsto> JString (js ''a''), ''new_string'' \<mapsto> JString [0x62, NL, 0x63]]
   = Some \<lparr>additions = 2, deletions = 0\<rparr>"
  using computeDiffStats_edit
    [of "[''old_string'' \<mapsto> JString (js ''a''), ''new_string'' \<mapsto> JString [0x62, NL, 0x63]]"
        "js ''a''" "[0x62, NL, 0x63]"]
  by (simp add: lineCount_def js_def NL_def)

text \<open>
  C9 as the spec states it fails: replacing the one line \<open>a\<close> by the one line \<open>b\<close> has a
  line-count delta of zero in both directions, and the code reports one addition and one
  deletion.
\<close>

theorem computeDiffStats_delta_counterexample:
  "computeDiffStats (js ''Edit'')
     [''old_string'' \<mapsto> JString (js ''a''), ''new_string'' \<mapsto> JString (js ''b'')]
   = Some \<lparr>additions = 1, deletions = 1\<rparr>
   \<and> max 0 (lineCount (js ''b'') - lineCount (js ''a'')) = 0
   \<and> max 0 (lineCount (js ''a'') - lineCount (js ''b'')) = 0"
  by (simp add: computeDiffStats_def stringField_def Let_def lineCount_def js_def NL_def)

section \<open>Properties of the context usage badge\<close>

lemma COMPACT_value: "COMPACT_THRESHOLD_RATIO = 6980579422424269 / 2 ^ 53"
  by code_simp

lemma WARNING_value: "WARNING_RATIO = 3602879701896397 / 2 ^ 52"
  by code_simp

lemma exponent_bounds:
  assumes "0 < x"
  shows "2 powi (exponent x) \<le> x" and "x < 2 powi (exponent x + 1)"
proof -
  have "2 powi (exponent x) \<le> x \<and> x < 2 powi (exponent x + 1)"
  proof (cases "1 \<le> x")
    case True
    let ?n = "\<lfloor>x\<rfloor>"
    have n: "0 < ?n" using True by simp
    from bitlen_bounds [OF n]
    have lo: "2 ^ nat (bitlen ?n - 1) \<le> ?n" and hi: "?n < 2 ^ nat (bitlen ?n)" by simp_all
    have b: "1 \<le> bitlen ?n" using n bitlen_eq_zero_iff [of ?n] bitlen_nonneg [of ?n] by linarith
    have e: "exponent x = bitlen ?n - 1" using True by (simp add: exponent_def)
    have "(2::rat) powi (bitlen ?n - 1) = of_int (2 ^ nat (bitlen ?n - 1))"
      using b by (simp add: power_int_def)
    also have "\<dots> \<le> of_int ?n" using lo by (simp only: of_int_le_iff)
    also have "\<dots> \<le> x" by simp
    finally have 1: "2 powi (exponent x) \<le> x" by (simp add: e)
    have "?n + 1 \<le> 2 ^ nat (bitlen ?n)" using hi by simp
    then have "(of_int (?n + 1) :: rat) \<le> of_int (2 ^ nat (bitlen ?n))"
      by (simp only: of_int_le_iff)
    moreover have "x < of_int (?n + 1)" by linarith
    moreover have "(2::rat) powi (bitlen ?n) = of_int (2 ^ nat (bitlen ?n))"
      using b by (simp add: power_int_def)
    ultimately have 2: "x < 2 powi (exponent x + 1)" by (simp add: e)
    from 1 2 show ?thesis ..
  next
    case False
    let ?y = "1 / x"
    let ?c = "\<lceil>?y\<rceil> - 1"
    have y: "1 < ?y" using False assms by (simp add: field_simps)
    then have c: "0 < ?c" by linarith
    from bitlen_bounds [OF c]
    have lo: "2 ^ nat (bitlen ?c - 1) \<le> ?c" and hi: "?c < 2 ^ nat (bitlen ?c)" by simp_all
    have b: "1 \<le> bitlen ?c" using c bitlen_eq_zero_iff [of ?c] bitlen_nonneg [of ?c] by linarith
    have e: "exponent x = - bitlen ?c" using False by (simp add: exponent_def)
    have p1: "(2::rat) powi (- bitlen ?c) = 1 / of_int (2 ^ nat (bitlen ?c))"
      using b by (simp add: power_int_def field_simps)
    have p2: "(2::rat) powi (1 - bitlen ?c) = 1 / of_int (2 ^ nat (bitlen ?c - 1))"
      using b by (simp add: power_int_def field_simps nat_diff_distrib)
    have "?c + 1 \<le> 2 ^ nat (bitlen ?c)" using hi by simp
    then have "(of_int (?c + 1) :: rat) \<le> of_int (2 ^ nat (bitlen ?c))"
      by (simp only: of_int_le_iff)
    moreover have "?y \<le> of_int (?c + 1)" by simp
    ultimately have "?y \<le> of_int (2 ^ nat (bitlen ?c))" by linarith
    then have 1: "2 powi (exponent x) \<le> x"
      using assms by (simp add: e p1 field_simps)
    have "(of_int (2 ^ nat (bitlen ?c - 1)) :: rat) \<le> of_int ?c"
      using lo by (simp only: of_int_le_iff)
    moreover have "of_int ?c < ?y" by linarith
    ultimately have "of_int (2 ^ nat (bitlen ?c - 1)) < ?y" by linarith
    then have 2: "x < 2 powi (exponent x + 1)"
      using assms by (simp add: e p2 field_simps)
    from 1 2 show ?thesis ..
  qed
  then show "2 powi (exponent x) \<le> x" and "x < 2 powi (exponent x + 1)" by simp_all
qed

lemma roundHalfEven_ge: "of_int j \<le> x \<Longrightarrow> j \<le> roundHalfEven x"
  unfolding roundHalfEven_def Let_def by (auto simp: le_floor_iff) linarith+

lemma roundHalfEven_le: "x \<le> of_int j \<Longrightarrow> roundHalfEven x \<le> j"
  unfolding roundHalfEven_def Let_def by (auto; linarith)

lemma roundHalfEven_less: "x < of_int j - 1 / 2 \<Longrightarrow> roundHalfEven x < j"
  unfolding roundHalfEven_def Let_def by (auto; linarith)

lemma roundHalfEven_greater: "of_int j + 1 / 2 < x \<Longrightarrow> j < roundHalfEven x"
  unfolding roundHalfEven_def Let_def by (auto; linarith)

lemma binary64_pos:
  assumes "0 < x"
  shows "binary64 x =
           of_int (roundHalfEven (x / 2 powi (exponent x - 52))) * 2 powi (exponent x - 52)"
  using assms by (simp add: binary64_def Let_def)

lemma binary64_binade:
  assumes "0 < x"
  shows "2 powi (exponent x) \<le> binary64 x" and "binary64 x \<le> 2 powi (exponent x + 1)"
proof -
  let ?e = "exponent x"
  let ?u = "(2::rat) powi (?e - 52)"
  have u: "0 < ?u" by simp
  have lo: "(2::rat) powi ?e = of_int (2 ^ 52) * ?u"
    using power_int_add [of "2::rat" 52 "?e - 52"] by simp
  have hi: "(2::rat) powi (?e + 1) = of_int (2 ^ 53) * ?u"
    using power_int_add [of "2::rat" 53 "?e - 52"] by (simp add: algebra_simps)
  have "of_int (2 ^ 52) \<le> x / ?u"
    using exponent_bounds(1) [OF assms] u by (simp add: lo pos_le_divide_eq)
  then have "2 ^ 52 \<le> roundHalfEven (x / ?u)" by (rule roundHalfEven_ge)
  then have "(of_int (2 ^ 52) :: rat) \<le> of_int (roundHalfEven (x / ?u))"
    by (simp only: of_int_le_iff)
  then have "of_int (2 ^ 52) * ?u \<le> of_int (roundHalfEven (x / ?u)) * ?u"
    using u by (simp only: mult_le_cancel_right_pos)
  then show "2 powi ?e \<le> binary64 x"
    by (simp only: lo binary64_pos [OF assms])
  have "x / ?u \<le> of_int (2 ^ 53)"
    using exponent_bounds(2) [OF assms] u by (simp add: hi pos_divide_le_eq)
  then have "roundHalfEven (x / ?u) \<le> 2 ^ 53" by (rule roundHalfEven_le)
  then have "(of_int (roundHalfEven (x / ?u)) :: rat) \<le> of_int (2 ^ 53)"
    by (simp only: of_int_le_iff)
  then have "of_int (roundHalfEven (x / ?u)) * ?u \<le> of_int (2 ^ 53) * ?u"
    using u by (simp only: mult_le_cancel_right_pos)
  then show "binary64 x \<le> 2 powi (?e + 1)"
    by (simp only: hi binary64_pos [OF assms])
qed

lemma exponent_less:
  assumes "0 < x" and "x < 2 powi k"
  shows "exponent x < k"
proof (rule ccontr)
  assume "\<not> exponent x < k"
  then have "(2::rat) powi k \<le> 2 powi (exponent x)"
    by (intro power_int_increasing) simp_all
  with exponent_bounds(1) [OF assms(1)] assms(2) show False by linarith
qed

lemma exponent_ge:
  assumes "0 < x" and "2 powi k \<le> x"
  shows "k \<le> exponent x"
proof (rule ccontr)
  assume "\<not> k \<le> exponent x"
  then have "(2::rat) powi (exponent x + 1) \<le> 2 powi k"
    by (intro power_int_increasing) simp_all
  with exponent_bounds(2) [OF assms(1)] assms(2) show False by linarith
qed

lemma warning_iff:
  fixes n t :: int
  assumes "0 < n" and "0 < t" and "t < 2 ^ 54"
  shows "WARNING_RATIO \<le> binary64 (of_int n / of_int t) \<longleftrightarrow>
         (4 / 5 :: rat) \<le> of_int n / of_int t"
proof -
  let ?y = "of_int n / of_int t :: rat"
  have y: "0 < ?y" using assms by simp
  consider (big) "1 \<le> ?y" | (small) "?y < 1 / 2" | (mid) "1 / 2 \<le> ?y" "?y < 1"
    by linarith
  then show ?thesis
  proof cases
    case big
    then have "0 \<le> exponent ?y"
      using exponent_ge [OF y, of 0] by simp
    then have "(2::rat) powi 0 \<le> 2 powi (exponent ?y)"
      by (intro power_int_increasing) simp_all
    with binary64_binade(1) [OF y] have "1 \<le> binary64 ?y" by simp
    then have "WARNING_RATIO \<le> binary64 ?y" by (simp add: WARNING_value)
    moreover have "(4 / 5 :: rat) \<le> ?y" using big by linarith
    ultimately show ?thesis by blast
  next
    case small
    then have "exponent ?y < -1"
      using exponent_less [OF y, of "-1"] by (simp add: power_int_minus_divide)
    then have "(2::rat) powi (exponent ?y + 1) \<le> 2 powi (-1)"
      by (intro power_int_increasing) simp_all
    with binary64_binade(2) [OF y] have "binary64 ?y \<le> 1 / 2"
      by (simp add: power_int_minus_divide)
    then have "\<not> WARNING_RATIO \<le> binary64 ?y" by (simp add: WARNING_value)
    moreover have "\<not> (4 / 5 :: rat) \<le> ?y" using small by linarith
    ultimately show ?thesis by blast
  next
    case mid
    have "exponent ?y < 0"
      using exponent_less [OF y, of 0] mid(2) by simp
    moreover have "-1 \<le> exponent ?y"
      using exponent_ge [OF y, of "-1"] mid(1) by (simp add: power_int_minus_divide)
    ultimately have e: "exponent ?y = -1" by simp
    have b: "binary64 ?y = of_int (roundHalfEven (?y * 2 ^ 53)) / 2 ^ 53"
      by (simp add: binary64_pos [OF y] e power_int_minus_divide)
    have w: "WARNING_RATIO \<le> binary64 ?y \<longleftrightarrow>
             7205759403792794 \<le> roundHalfEven (?y * 2 ^ 53)"
    proof -
      have "WARNING_RATIO \<le> binary64 ?y \<longleftrightarrow>
            (of_int 7205759403792794 :: rat) \<le> of_int (roundHalfEven (?y * 2 ^ 53))"
        by (simp add: b WARNING_value field_simps)
      then show ?thesis by (simp only: of_int_le_iff)
    qed
    show ?thesis
    proof (cases "(4 / 5 :: rat) \<le> ?y")
      case True
      then have "of_int 7205759403792793 + 1 / 2 < ?y * 2 ^ 53" by simp
      from roundHalfEven_greater [OF this] have "WARNING_RATIO \<le> binary64 ?y"
        by (simp add: w)
      with True show ?thesis by blast
    next
      case False
      then have "of_int n * 5 < (of_int t * 4 :: rat)"
        using assms(2) by (simp add: field_simps)
      then have "of_int (n * 5) < (of_int (t * 4) :: rat)" by simp
      then have "n * 5 < t * 4" by (simp only: of_int_less_iff)
      then have "n * 5 + 1 \<le> t * 4" by simp
      then have "(of_int (n * 5 + 1) :: rat) \<le> of_int (t * 4)" by (simp only: of_int_le_iff)
      then have le: "of_int n * 5 + 1 \<le> (of_int t * 4 :: rat)" by simp
      have tb: "(of_int t :: rat) < 2 ^ 54"
      proof -
        have "(of_int t :: rat) < of_int (2 ^ 54)" using assms(3) by (simp only: of_int_less_iff)
        then show ?thesis by simp
      qed
      have tp: "(0::rat) < of_int t" using assms(2) by simp
      have "?y * 2 ^ 53 * (5 * of_int t) = of_int n * 5 * 2 ^ 53"
        using tp by simp
      also have "\<dots> \<le> (of_int t * 4 - 1) * 2 ^ 53" using le by simp
      also have "\<dots> < (of_int 7205759403792794 - 1 / 2) * (5 * of_int t)"
        using tb by simp
      finally have "?y * 2 ^ 53 * (5 * of_int t) <
                    (of_int 7205759403792794 - 1 / 2) * (5 * of_int t)" .
      moreover have "(0::rat) < 5 * of_int t" using tp by simp
      ultimately have "?y * 2 ^ 53 < of_int 7205759403792794 - 1 / 2"
        by (rule mult_right_less_imp_less [OF _ less_imp_le])
      from roundHalfEven_less [OF this] have "\<not> WARNING_RATIO \<le> binary64 ?y"
        by (simp add: w)
      with False show ?thesis by blast
    qed
  qed
qed

lemma threshold_exact:
  fixes w :: int
  assumes "2 \<le> w" and "w \<le> 2 ^ 48"
  shows "\<lfloor>binary64 (of_int w * COMPACT_THRESHOLD_RATIO)\<rfloor> = \<lfloor>of_int w * (0.775 :: rat)\<rfloor>"
proof -
  let ?x = "of_int w * COMPACT_THRESHOLD_RATIO :: rat"
  let ?k = "\<lfloor>of_int w * (0.775 :: rat)\<rfloor>"
  let ?e = "exponent ?x"
  let ?u = "(2::rat) powi (?e - 52)"
  let ?N = "(2::int) ^ nat (52 - ?e)"
  have wr: "(2::rat) \<le> of_int w" "(of_int w :: rat) \<le> 2 ^ 48"
  proof -
    have "(of_int 2 :: rat) \<le> of_int w" using assms(1) by (simp only: of_int_le_iff)
    then show "(2::rat) \<le> of_int w" by simp
    have "(of_int w :: rat) \<le> of_int (2 ^ 48)" using assms(2) by (simp only: of_int_le_iff)
    then show "(of_int w :: rat) \<le> 2 ^ 48" by simp
  qed
  have x: "?x = of_int w * 31 / 40 + of_int w / (5 * 2 ^ 53)"
    by (simp add: COMPACT_value field_simps)
  have xpos: "0 < ?x" using wr by (simp add: x)
  have u: "0 < ?u" by simp
  have "?x < 2 powi 48" using wr by (simp add: x)
  from exponent_less [OF xpos this] have e: "?e \<le> 47" by simp
  have N: "(2::rat) powi (52 - ?e) = of_int ?N"
    using e by (simp add: power_int_def)
  have uN: "?u * of_int ?N = 1"
    using power_int_add [of "2::rat" "?e - 52" "52 - ?e"] by (simp add: N)
  have Nge: "(32::rat) \<le> of_int ?N"
  proof -
    have "(2::rat) powi 5 \<le> 2 powi (52 - ?e)"
      using e by (intro power_int_increasing) simp_all
    then show ?thesis by (simp add: N)
  qed
  have Nu: "of_int ?N * ?u = 1"
    using uN by (simp only: mult.commute)
  have div: "?x / ?u = ?x * of_int ?N"
    using uN by (simp add: field_simps)
  have b: "binary64 ?x = of_int (roundHalfEven (?x * of_int ?N)) * ?u"
    by (simp add: binary64_pos [OF xpos] div)
  have k: "?k = (31 * w) div 40"
  proof -
    have "of_int w * (0.775 :: rat) = of_int (31 * w) / of_int 40" by simp
    then show ?thesis by (simp only: floor_divide_of_int_eq)
  qed
  have klo: "(of_int ?k :: rat) \<le> of_int w * 31 / 40"
  proof -
    have "40 * ?k \<le> 31 * w" unfolding k by (simp add: div_mult_mod_eq [symmetric])
    then have "(of_int (40 * ?k) :: rat) \<le> of_int (31 * w)" by (simp only: of_int_le_iff)
    then show ?thesis by simp
  qed
  have khi: "of_int w * 31 / 40 \<le> (of_int ?k :: rat) + 39 / 40"
  proof -
    have "(31 * w) mod 40 \<le> 39" by simp
    then have "31 * w \<le> 40 * ?k + 39"
      unfolding k using div_mult_mod_eq [of "31 * w" 40] by linarith
    then have "(of_int (31 * w) :: rat) \<le> of_int (40 * ?k + 39)" by (simp only: of_int_le_iff)
    then show ?thesis by simp
  qed
  have small: "of_int w / (5 * 2 ^ 53) \<le> (1 / 160 :: rat)"
    using wr by simp
  have smallpos: "0 \<le> of_int w / (5 * 2 ^ 53 :: rat)"
    using wr by simp
  have lower: "of_int ?k \<le> binary64 ?x"
  proof -
    have "(of_int (?k * ?N) :: rat) \<le> ?x * of_int ?N"
    proof -
      have "(of_int ?k :: rat) \<le> ?x" unfolding x using klo smallpos by linarith
      moreover have "(0::rat) \<le> of_int ?N" using Nge by linarith
      ultimately have "of_int ?k * of_int ?N \<le> ?x * (of_int ?N :: rat)"
        by (rule mult_right_mono)
      then show ?thesis by simp
    qed
    then have "?k * ?N \<le> roundHalfEven (?x * of_int ?N)" by (rule roundHalfEven_ge)
    then have "(of_int (?k * ?N) :: rat) \<le> of_int (roundHalfEven (?x * of_int ?N))"
      by (simp only: of_int_le_iff)
    then have "of_int (?k * ?N) * ?u \<le> of_int (roundHalfEven (?x * of_int ?N)) * ?u"
      using u by (simp only: mult_le_cancel_right_pos)
    moreover have "(of_int (?k * ?N) :: rat) * ?u = of_int ?k"
      by (simp only: of_int_mult mult.assoc Nu mult_1_right)
    ultimately show ?thesis by (simp only: b)
  qed
  have upper: "binary64 ?x < of_int (?k + 1)"
  proof -
    have gap: "(3 / 160 :: rat) \<le> of_int (?k + 1) - ?x"
      unfolding x of_int_add of_int_1 using khi small by linarith
    have "(32 :: rat) * (3 / 160) \<le> of_int ?N * (of_int (?k + 1) - ?x)"
      using Nge gap by (intro mult_mono) simp_all
    then have "?x * of_int ?N < of_int ((?k + 1) * ?N) - 1 / 2"
      by (simp add: algebra_simps)
    then have "roundHalfEven (?x * of_int ?N) < (?k + 1) * ?N" by (rule roundHalfEven_less)
    then have "(of_int (roundHalfEven (?x * of_int ?N)) :: rat) < of_int ((?k + 1) * ?N)"
      by (simp only: of_int_less_iff)
    then have "of_int (roundHalfEven (?x * of_int ?N)) * ?u < of_int ((?k + 1) * ?N) * ?u"
      using u by (simp only: mult_less_cancel_right_pos)
    moreover have "(of_int ((?k + 1) * ?N) :: rat) * ?u = of_int (?k + 1)"
      by (simp only: of_int_mult mult.assoc Nu mult_1_right)
    ultimately show ?thesis by (simp only: b)
  qed
  from lower upper show ?thesis
    by (intro floor_unique) simp_all
qed

lemma binary64_neg:
  assumes "x < 0"
  shows "binary64 x < 0"
proof -
  have pos: "0 < - x" using assms by simp
  have "binary64 x = - binary64 (- x)"
    using assms by (simp add: binary64_def Let_def)
  moreover have "0 < binary64 (- x)"
  proof -
    have "(0::rat) < 2 powi (exponent (- x))" by simp
    also have "\<dots> \<le> binary64 (- x)" by (rule binary64_binade(1) [OF pos])
    finally show ?thesis .
  qed
  ultimately show ?thesis by simp
qed

lemma threshold_negative:
  fixes w :: int
  assumes "w < 0"
  shows "\<lfloor>binary64 (of_int w * COMPACT_THRESHOLD_RATIO)\<rfloor> < 0"
proof -
  have "of_int w * COMPACT_THRESHOLD_RATIO < 0"
    using assms by (simp add: COMPACT_value mult_less_0_iff)
  from binary64_neg [OF this] show ?thesis by (simp add: floor_less_iff)
qed

lemma threshold_one: "\<lfloor>binary64 (of_int 1 * COMPACT_THRESHOLD_RATIO)\<rfloor> = 0"
  by code_simp

lemma threshold_pos:
  fixes w :: int
  assumes "2 \<le> w"
  shows "0 < \<lfloor>of_int w * (0.775 :: rat)\<rfloor>" and "\<lfloor>of_int w * (0.775 :: rat)\<rfloor> \<le> w"
proof -
  have "(of_int 2 :: rat) \<le> of_int w" using assms by (simp only: of_int_le_iff)
  then have w: "(2 :: rat) \<le> of_int w" by simp
  then have "(1 :: rat) \<le> of_int w * 0.775" by simp
  then show "0 < \<lfloor>of_int w * (0.775 :: rat)\<rfloor>" by (simp add: less_floor_iff)
  have "of_int w * (0.775 :: rat) \<le> of_int w" using w by simp
  then have "\<lfloor>of_int w * (0.775 :: rat)\<rfloor> \<le> \<lfloor>(of_int w :: rat)\<rfloor>" by (rule floor_mono)
  then show "\<lfloor>of_int w * (0.775 :: rat)\<rfloor> \<le> w" by simp
qed

text \<open>
  C4, as the code has it. While compacting, the component shows the spinner, whatever the
  token counts. Otherwise, with the input tokens absent or not positive, it renders
  nothing: no data, which is not a badge at 0 percent. Otherwise, for a context window of
  2 to \<open>2^48\<close> tokens, the compaction threshold is the floor of the window times 0.775,
  and the badge warns exactly when the input tokens divided by the threshold are at
  least 0.80, and is normal if not. With the window absent, 0 or 1 there is no ratio and
  the badge is normal, as it is with a negative window.
\<close>

theorem ContextUsageBadge_classification:
  "(isCompacting \<longrightarrow> ContextUsageBadge it cw isCompacting = CompactingSpinner) \<and>
   (\<not> isCompacting \<longrightarrow> (it = None \<or> (\<exists>n. it = Some n \<and> n \<le> 0)) \<longrightarrow>
      ContextUsageBadge it cw isCompacting = NoBadge) \<and>
   (\<forall>n w. \<not> isCompacting \<longrightarrow> it = Some n \<longrightarrow> 0 < n \<longrightarrow> cw = Some w \<longrightarrow>
      2 \<le> w \<longrightarrow> w \<le> 2 ^ 48 \<longrightarrow>
      ContextUsageBadge it cw isCompacting =
        Badge ((0.80::rat) \<le> of_int n / of_int \<lfloor>of_int w * (0.775::rat)\<rfloor>)
              (Some \<lfloor>of_int w * (0.775::rat)\<rfloor>)
              (Some (binary64 (of_int n / of_int \<lfloor>of_int w * (0.775::rat)\<rfloor>)))) \<and>
   (\<forall>n. \<not> isCompacting \<longrightarrow> it = Some n \<longrightarrow> 0 < n \<longrightarrow>
      (cw = None \<or> cw = Some 0 \<or> cw = Some 1) \<longrightarrow>
      (\<exists>t. ContextUsageBadge it cw isCompacting = Badge False t None)) \<and>
   (\<forall>n w. \<not> isCompacting \<longrightarrow> it = Some n \<longrightarrow> 0 < n \<longrightarrow> cw = Some w \<longrightarrow> w < 0 \<longrightarrow>
      (\<exists>t r. ContextUsageBadge it cw isCompacting = Badge False t r))"
proof (intro conjI allI impI)
  assume "isCompacting"
  then show "ContextUsageBadge it cw isCompacting = CompactingSpinner"
    by (simp add: ContextUsageBadge_def)
next
  assume "\<not> isCompacting" "it = None \<or> (\<exists>n. it = Some n \<and> n \<le> 0)"
  then show "ContextUsageBadge it cw isCompacting = NoBadge"
    by (auto simp: ContextUsageBadge_def)
next
  fix n w
  assume a: "\<not> isCompacting" "it = Some n" "0 < n" "cw = Some w" "2 \<le> w" "w \<le> 2 ^ 48"
  define t where "t = \<lfloor>of_int w * (0.775::rat)\<rfloor>"
  have t: "\<lfloor>binary64 (of_int w * COMPACT_THRESHOLD_RATIO)\<rfloor> = t"
    unfolding t_def using a(5,6) by (rule threshold_exact)
  have tpos: "0 < t" and tle: "t \<le> w"
    unfolding t_def using threshold_pos [OF a(5)] by simp_all
  have "t < 2 ^ 54" using tle a(6) by simp
  from warning_iff [OF a(3) tpos this]
  have "WARNING_RATIO \<le> binary64 (of_int n / of_int t) \<longleftrightarrow>
        (0.80::rat) \<le> of_int n / of_int t"
    by simp
  then have "ContextUsageBadge it cw isCompacting =
        Badge ((0.80::rat) \<le> of_int n / of_int t) (Some t)
              (Some (binary64 (of_int n / of_int t)))"
    using a tpos by (simp add: ContextUsageBadge_def Let_def t)
  then show "ContextUsageBadge it cw isCompacting =
        Badge ((0.80::rat) \<le> of_int n / of_int \<lfloor>of_int w * (0.775::rat)\<rfloor>)
              (Some \<lfloor>of_int w * (0.775::rat)\<rfloor>)
              (Some (binary64 (of_int n / of_int \<lfloor>of_int w * (0.775::rat)\<rfloor>)))"
    by (simp only: t_def)
next
  fix n
  assume "\<not> isCompacting" "it = Some n" "0 < n" "cw = None \<or> cw = Some 0 \<or> cw = Some 1"
  then show "\<exists>t. ContextUsageBadge it cw isCompacting = Badge False t None"
    using threshold_one by (auto simp: ContextUsageBadge_def Let_def)
next
  fix n w
  assume a: "\<not> isCompacting" "it = Some n" "0 < n" "cw = Some w" "w < 0"
  let ?t = "\<lfloor>binary64 (of_int w * COMPACT_THRESHOLD_RATIO)\<rfloor>"
  have t: "?t < 0" using a(5) by (rule threshold_negative)
  have "of_int n / (of_int ?t :: rat) < 0"
    using a(3) t by (simp add: divide_less_0_iff)
  from binary64_neg [OF this] have "\<not> WARNING_RATIO \<le> binary64 (of_int n / of_int ?t)"
    by (simp add: WARNING_value)
  then show "\<exists>t r. ContextUsageBadge it cw isCompacting = Badge False t r"
    using a t by (simp add: ContextUsageBadge_def Let_def)
qed

theorem ContextUsageBadge_classification_witness:
  "ContextUsageBadge (Some 62000) (Some 100000) False
     = Badge True (Some 77500) (Some (binary64 (62000 / 77500))) \<and>
   ContextUsageBadge (Some 50000) (Some 100000) False
     = Badge False (Some 77500) (Some (binary64 (50000 / 77500))) \<and>
   ContextUsageBadge None (Some 100000) False = NoBadge \<and>
   ContextUsageBadge (Some 62000) (Some 100000) True = CompactingSpinner"
  using ContextUsageBadge_classification [of False "Some 62000" "Some 100000"]
        ContextUsageBadge_classification [of False "Some 50000" "Some 100000"]
        ContextUsageBadge_classification [of False None "Some 100000"]
        ContextUsageBadge_classification [of True "Some 62000" "Some 100000"]
  by simp

text \<open>
  C4 as the spec states it fails for a large window: at 400000000000009 the product is
  rounded to binary64 before the floor, which gives 310000000000007 where the floor of the
  exact product is 310000000000006, and 248000000000005 input tokens, at least 0.80 of
  the exact threshold, give no warning.
\<close>

theorem large_window_counterexample:
  "ContextUsageBadge (Some 248000000000005) (Some 400000000000009) False
     = Badge False (Some 310000000000007)
         (Some (binary64 (248000000000005 / 310000000000007))) \<and>
   \<lfloor>of_int 400000000000009 * (0.775::rat)\<rfloor> = 310000000000006 \<and>
   (0.80::rat) \<le> of_int 248000000000005 / of_int 310000000000006"
  by code_simp

section \<open>Properties of the session store\<close>

lemma mset_insort_cmp: "mset (insort_cmp cmp x xs) = add_mset x (mset xs)"
  by (induction xs) auto

lemma mset_sort_js: "mset (sort_js cmp xs) = mset xs"
  by (induction xs) (auto simp: sort_js_def mset_insort_cmp)

lemma set_insort_cmp: "set (insort_cmp cmp x xs) = insert x (set xs)"
  by (induction xs) auto

lemma sorted_insort_cmp:
  fixes f :: "'a \<Rightarrow> int"
  assumes "sorted_wrt (\<lambda>a b. f b \<le> f a) xs"
  shows "sorted_wrt (\<lambda>a b. f b \<le> f a) (insort_cmp (\<lambda>a b. f b - f a) x xs)"
  using assms
proof (induction xs)
  case Nil
  then show ?case by simp
next
  case (Cons y ys)
  then show ?case
    by (auto simp: set_insort_cmp)
qed

lemma sorted_sort_js:
  fixes f :: "'a \<Rightarrow> int"
  shows "sorted_wrt (\<lambda>a b. f b \<le> f a) (sort_js (\<lambda>a b. f b - f a) xs)"
proof (induction xs)
  case Nil
  then show ?case by (simp add: sort_js_def)
next
  case (Cons x xs)
  then show ?case
    using sorted_insort_cmp [of f "sort_js (\<lambda>a b. f b - f a) xs" x]
    by (simp add: sort_js_def)
qed

text \<open>
  C8. \<open>listAgentSessions\<close> returns the sessions of the index, each as often as the
  index has it, in descending order of \<open>updatedAt\<close>; it returns the empty list when the
  index file is absent or cannot be parsed. It has no error result: nothing is thrown.
\<close>

theorem listAgentSessions_sorted:
  "sorted_wrt (\<lambda>a b. updatedAt b \<le> updatedAt a) (listAgentSessions d) \<and>
   mset (listAgentSessions d) = mset (sessions (readIndex d)) \<and>
   (indexFile d = IndexAbsent \<or> indexFile d = IndexUnparseable \<longrightarrow> listAgentSessions d = [])"
proof (intro conjI impI)
  show "sorted_wrt (\<lambda>a b. updatedAt b \<le> updatedAt a) (listAgentSessions d)"
    unfolding listAgentSessions_def Let_def by (rule sorted_sort_js)
  show "mset (listAgentSessions d) = mset (sessions (readIndex d))"
    by (simp add: listAgentSessions_def mset_sort_js)
  assume "indexFile d = IndexAbsent \<or> indexFile d = IndexUnparseable"
  then show "listAgentSessions d = []"
    by (auto simp: listAgentSessions_def readIndex_def sort_js_def)
qed

theorem listAgentSessions_sorted_witness:
  "listAgentSessions (mkDisk IndexUnparseable) = [] \<and>
   listAgentSessions (mkDisk IndexAbsent) = [] \<and>
   sorted_wrt (\<lambda>a b. updatedAt b \<le> updatedAt a) (listAgentSessions twoSessions) \<and>
   map updatedAt (listAgentSessions twoSessions) = [9, 5]"
proof -
  have "listAgentSessions (mkDisk IndexUnparseable) = []"
    using listAgentSessions_sorted [of "mkDisk IndexUnparseable"] by (simp add: mkDisk_def)
  moreover have "listAgentSessions (mkDisk IndexAbsent) = []"
    using listAgentSessions_sorted [of "mkDisk IndexAbsent"] by (simp add: mkDisk_def)
  moreover have "sorted_wrt (\<lambda>a b. updatedAt b \<le> updatedAt a) (listAgentSessions twoSessions)"
    using listAgentSessions_sorted [of twoSessions] by simp
  moreover have "map updatedAt (listAgentSessions twoSessions) = [9, 5]"
    by (simp add: twoSessions_def mkDisk_def listAgentSessions_def readIndex_def sort_js_def
        mkSession_def)
  ultimately show ?thesis by simp
qed

text \<open>
  C10. \<open>createAgentSession\<close> returns a session whenever the index can be written. The
  session it returns has the default title when the title argument is absent or the empty
  string, and a title that is not empty as it was given; its \<open>createdAt\<close> and
  \<open>updatedAt\<close> are the same time; and it is the last session of the new index. The
  default title is given by its ten UTF-16 code units: U+65B0, a space, \<open>Agent\<close>, a
  space, U+4F1A, U+8BDD.
\<close>

theorem createAgentSession_title:
  "(indexWritable d \<longrightarrow>
      (\<exists>meta d'. createAgentSession uuid now t c w d = (Inr meta, d'))) \<and>
   (\<forall>meta d'. createAgentSession uuid now t c w d = (Inr meta, d') \<longrightarrow>
      (t = None \<or> t = Some [] \<longrightarrow>
         title meta = [0x65B0, 0x20, 0x41, 0x67, 0x65, 0x6E, 0x74, 0x20, 0x4F1A, 0x8BDD]) \<and>
      (\<forall>s. t = Some s \<and> s \<noteq> [] \<longrightarrow> title meta = s) \<and>
      createdAt meta = updatedAt meta \<and> createdAt meta = now \<and>
      sessions (readIndex d') = sessions (readIndex d) @ [meta])"
  by (auto simp: createAgentSession_def writeIndex_def readIndex_def Let_def DEFAULT_TITLE_def
           js_def split: if_splits option.splits)

theorem createAgentSession_title_witness:
  "(\<exists>meta d'. createAgentSession (js ''u1'') 42 (Some []) None None (mkDisk IndexAbsent)
        = (Inr meta, d') \<and>
        title meta = [0x65B0, 0x20, 0x41, 0x67, 0x65, 0x6E, 0x74, 0x20, 0x4F1A, 0x8BDD] \<and>
        createdAt meta = 42 \<and> updatedAt meta = 42) \<and>
   (\<exists>meta d'. createAgentSession (js ''u2'') 43 (Some (js ''Plan'')) None None (mkDisk IndexAbsent)
        = (Inr meta, d') \<and> title meta = js ''Plan'')"
  using createAgentSession_title [of "mkDisk IndexAbsent" "js ''u1''" 42 "Some []" None None]
        createAgentSession_title [of "mkDisk IndexAbsent" "js ''u2''" 43 "Some (js ''Plan'')" None None]
  by (auto simp: mkDisk_def js_def)

lemma findIndex_None: "findIndex P xs = None \<longleftrightarrow> (\<forall>x \<in> set xs. \<not> P x)"
  by (induction xs) auto

lemma findIndex_Some:
  "findIndex P xs = Some i \<Longrightarrow> i < length xs \<and> P (xs ! i) \<and> (\<forall>j < i. \<not> P (xs ! j))"
proof (induction xs arbitrary: i)
  case Nil
  then show ?case by simp
next
  case (Cons x xs)
  show ?case
  proof (cases "P x")
    case True
    with Cons.prems show ?thesis by simp
  next
    case False
    with Cons.prems obtain k where k: "findIndex P xs = Some k" "i = Suc k"
      by auto
    from Cons.IH [OF k(1)] False k(2) show ?thesis
      by (auto simp: less_Suc_eq_0_disj)
  qed
qed

text \<open>
  C7. \<open>updateAgentSessionMeta\<close> with an id that no session of the index has fails with
  the not-found error and leaves the store as it was. With an id that is known, and an
  index that can be written, it returns the first session of that id with the supplied
  fields among title, channelId, sdkSessionId and workspaceId replaced and \<open>updatedAt\<close>
  set to the current time; \<open>id\<close> and \<open>createdAt\<close> are kept, the new index has the
  returned record at the place of the old one and every other session unchanged, and
  the transcripts are not touched.
\<close>

theorem updateAgentSessionMeta_frame:
  "((\<forall>s \<in> set (sessions (readIndex d)). id' s \<noteq> sid) \<longrightarrow>
      updateAgentSessionMeta now sid u d = (Inl (SessionNotFound sid), d)) \<and>
   ((\<exists>s \<in> set (sessions (readIndex d)). id' s = sid) \<longrightarrow> indexWritable d \<longrightarrow>
      (\<exists>idx updated d'.
         updateAgentSessionMeta now sid u d = (Inr updated, d') \<and>
         idx < length (sessions (readIndex d)) \<and>
         id' (sessions (readIndex d) ! idx) = sid \<and>
         (\<forall>j < idx. id' (sessions (readIndex d) ! j) \<noteq> sid) \<and>
         id' updated = sid \<and>
         createdAt updated = createdAt (sessions (readIndex d) ! idx) \<and>
         updatedAt updated = now \<and>
         title updated =
           (case newTitle u of None \<Rightarrow> title (sessions (readIndex d) ! idx) | Some v \<Rightarrow> v) \<and>
         channelId updated =
           (case newChannelId u of None \<Rightarrow> channelId (sessions (readIndex d) ! idx) | Some v \<Rightarrow> v) \<and>
         sdkSessionId updated =
           (case newSdkSessionId u of None \<Rightarrow> sdkSessionId (sessions (readIndex d) ! idx)
            | Some v \<Rightarrow> v) \<and>
         workspaceId updated =
           (case newWorkspaceId u of None \<Rightarrow> workspaceId (sessions (readIndex d) ! idx)
            | Some v \<Rightarrow> v) \<and>
         sessions (readIndex d') = (sessions (readIndex d))[idx := updated] \<and>
         (\<forall>j < length (sessions (readIndex d)). j \<noteq> idx \<longrightarrow>
            sessions (readIndex d') ! j = sessions (readIndex d) ! j) \<and>
         version (readIndex d') = version (readIndex d) \<and>
         files d' = files d))"
proof (intro conjI impI)
  assume "\<forall>s \<in> set (sessions (readIndex d)). id' s \<noteq> sid"
  then have "findIndex (\<lambda>s. id' s = sid) (sessions (readIndex d)) = None"
    by (simp add: findIndex_None)
  then show "updateAgentSessionMeta now sid u d = (Inl (SessionNotFound sid), d)"
    by (simp add: updateAgentSessionMeta_def Let_def)
next
  assume known: "\<exists>s \<in> set (sessions (readIndex d)). id' s = sid" and w: "indexWritable d"
  let ?ss = "sessions (readIndex d)"
  from known have "findIndex (\<lambda>s. id' s = sid) ?ss \<noteq> None"
    by (simp add: findIndex_None)
  then obtain idx where idx: "findIndex (\<lambda>s. id' s = sid) ?ss = Some idx"
    by auto
  note props = findIndex_Some [OF idx]
  define updated where "updated = (spreadUpdates (?ss ! idx) u)\<lparr>updatedAt := now\<rparr>"
  define d' where "d' = d\<lparr>indexFile := IndexDoc ((readIndex d)\<lparr>sessions := ?ss[idx := updated]\<rparr>)\<rparr>"
  have res: "updateAgentSessionMeta now sid u d = (Inr updated, d')"
    using idx w by (simp add: updateAgentSessionMeta_def Let_def writeIndex_def updated_def d'_def)
  have rd: "readIndex d' = (readIndex d)\<lparr>sessions := ?ss[idx := updated]\<rparr>"
    by (simp add: d'_def readIndex_def)
  show "\<exists>idx updated d'.
         updateAgentSessionMeta now sid u d = (Inr updated, d') \<and>
         idx < length (sessions (readIndex d)) \<and>
         id' (sessions (readIndex d) ! idx) = sid \<and>
         (\<forall>j < idx. id' (sessions (readIndex d) ! j) \<noteq> sid) \<and>
         id' updated = sid \<and>
         createdAt updated = createdAt (sessions (readIndex d) ! idx) \<and>
         updatedAt updated = now \<and>
         title updated =
           (case newTitle u of None \<Rightarrow> title (sessions (readIndex d) ! idx) | Some v \<Rightarrow> v) \<and>
         channelId updated =
           (case newChannelId u of None \<Rightarrow> channelId (sessions (readIndex d) ! idx) | Some v \<Rightarrow> v) \<and>
         sdkSessionId updated =
           (case newSdkSessionId u of None \<Rightarrow> sdkSessionId (sessions (readIndex d) ! idx)
            | Some v \<Rightarrow> v) \<and>
         workspaceId updated =
           (case newWorkspaceId u of None \<Rightarrow> workspaceId (sessions (readIndex d) ! idx)
            | Some v \<Rightarrow> v) \<and>
         sessions (readIndex d') = (sessions (readIndex d))[idx := updated] \<and>
         (\<forall>j < length (sessions (readIndex d)). j \<noteq> idx \<longrightarrow>
            sessions (readIndex d') ! j = sessions (readIndex d) ! j) \<and>
         version (readIndex d') = version (readIndex d) \<and>
         files d' = files d"
    apply (rule exI [of _ idx], rule exI [of _ updated], rule exI [of _ d'])
    using res props rd
    by (simp add: updated_def spreadUpdates_def d'_def)
qed

theorem updateAgentSessionMeta_frame_witness:
  "updateAgentSessionMeta 20 (js ''zz'') (noUpdates\<lparr>newTitle := Some (js ''T'')\<rparr>) twoSessions
     = (Inl (SessionNotFound (js ''zz'')), twoSessions) \<and>
   (\<exists>updated d'.
      updateAgentSessionMeta 20 (js ''b'') (noUpdates\<lparr>newTitle := Some (js ''T'')\<rparr>) twoSessions
        = (Inr updated, d') \<and>
      id' updated = js ''b'' \<and> title updated = js ''T'' \<and> updatedAt updated = 20 \<and>
      files d' = files twoSessions) \<and>
   fst (updateAgentSessionMeta 20 (js ''b'') (noUpdates\<lparr>newTitle := Some (js ''T'')\<rparr>) twoSessions)
     = Inr (mkSession ''b'' ''T'' 2 20)"
proof -
  have unknown: "\<forall>s \<in> set (sessions (readIndex twoSessions)). id' s \<noteq> js ''zz''"
    by (simp add: twoSessions_def mkDisk_def readIndex_def mkSession_def js_def)
  have known: "\<exists>s \<in> set (sessions (readIndex twoSessions)). id' s = js ''b''"
    by (simp add: twoSessions_def mkDisk_def readIndex_def mkSession_def js_def)
  have w: "indexWritable twoSessions"
    by (simp add: twoSessions_def mkDisk_def)
  from updateAgentSessionMeta_frame
         [of twoSessions "js ''zz''" 20 "noUpdates\<lparr>newTitle := Some (js ''T'')\<rparr>"] unknown
  have first: "updateAgentSessionMeta 20 (js ''zz'') (noUpdates\<lparr>newTitle := Some (js ''T'')\<rparr>)
      twoSessions = (Inl (SessionNotFound (js ''zz'')), twoSessions)"
    by blast
  from updateAgentSessionMeta_frame
         [of twoSessions "js ''b''" 20 "noUpdates\<lparr>newTitle := Some (js ''T'')\<rparr>"] known w
  have second: "\<exists>updated d'.
      updateAgentSessionMeta 20 (js ''b'') (noUpdates\<lparr>newTitle := Some (js ''T'')\<rparr>) twoSessions
        = (Inr updated, d') \<and>
      id' updated = js ''b'' \<and> title updated = js ''T'' \<and> updatedAt updated = 20 \<and>
      files d' = files twoSessions"
    by (auto simp: noUpdates_def)
  have third:
    "fst (updateAgentSessionMeta 20 (js ''b'') (noUpdates\<lparr>newTitle := Some (js ''T'')\<rparr>)
       twoSessions) = Inr (mkSession ''b'' ''T'' 2 20)"
    by (simp add: updateAgentSessionMeta_def twoSessions_def mkDisk_def readIndex_def
        mkSession_def js_def Let_def writeIndex_def spreadUpdates_def noUpdates_def)
  from first second third show ?thesis by blast
qed

lemma those_map_None: "those (map f xs) = None \<longleftrightarrow> (\<exists>x \<in> set xs. f x = None)"
  by (induction xs) (auto split: option.splits)

lemma those_append:
  "those xs = Some a \<Longrightarrow> those ys = Some b \<Longrightarrow> those (xs @ ys) = Some (a @ b)"
  by (induction xs arbitrary: a) (auto split: option.splits)

text \<open>
  C2. \<open>getAgentSessionMessages\<close> returns the empty list when the transcript is absent,
  when it cannot be read, and when one of its lines fails to parse (the lines are those
  the function parses: the pieces between line feeds that \<open>trim\<close> does not empty).
  The result is a list in every case: nothing is thrown.
\<close>

theorem getAgentSessionMessages_degrades:
  "(files d (path sid) = None \<longrightarrow> getAgentSessionMessages path parse d sid = []) \<and>
   (files d (path sid) = Some NotAFile \<longrightarrow> getAgentSessionMessages path parse d sid = []) \<and>
   (\<forall>raw. files d (path sid) = Some (TextFile raw) \<longrightarrow>
      (\<exists>line \<in> set (split_js NL raw). trim line \<noteq> [] \<and> parse line = None) \<longrightarrow>
      getAgentSessionMessages path parse d sid = [])"
proof (intro conjI impI allI)
  assume "files d (path sid) = None"
  then show "getAgentSessionMessages path parse d sid = []"
    by (simp add: getAgentSessionMessages_def)
next
  assume "files d (path sid) = Some NotAFile"
  then show "getAgentSessionMessages path parse d sid = []"
    by (simp add: getAgentSessionMessages_def readMessages_def)
next
  fix raw
  assume f: "files d (path sid) = Some (TextFile raw)"
    and bad: "\<exists>line \<in> set (split_js NL raw). trim line \<noteq> [] \<and> parse line = None"
  from bad have "those (map parse (filter (\<lambda>line. trim line \<noteq> []) (split_js NL raw))) = None"
    by (auto simp: those_map_None)
  with f show "getAgentSessionMessages path parse d sid = []"
    by (simp add: getAgentSessionMessages_def readMessages_def)
qed

lemma split_cut: "split_js NL cutTranscript = [stringifyText (js ''hello''), [0x22, 0x77, 0x6F]]"
  by (simp add: cutTranscript_def stringifyText_def js_def NL_def)

theorem getAgentSessionMessages_degrades_witness:
  "getAgentSessionMessages sessionPath parseText (transcriptDisk cutTranscript) (js ''s1'') = [] \<and>
   getAgentSessionMessages sessionPath parseText (transcriptDisk cutTranscript) (js ''s2'') = []"
proof -
  have there: "files (transcriptDisk cutTranscript) (sessionPath (js ''s1'')) = Some (TextFile cutTranscript)"
    by (simp add: transcriptDisk_def)
  have bad: "\<exists>line \<in> set (split_js NL cutTranscript). trim line \<noteq> [] \<and> parseText line = None"
    by (simp add: split_cut trim_def isWhiteSpace_def parseText_def stringifyText_def js_def)
  have absent: "files (transcriptDisk cutTranscript) (sessionPath (js ''s2'')) = None"
    by (simp add: transcriptDisk_def sessionPath_def js_def)
  from getAgentSessionMessages_degrades
         [of "transcriptDisk cutTranscript" sessionPath "js ''s1''" parseText] there bad
       getAgentSessionMessages_degrades
         [of "transcriptDisk cutTranscript" sessionPath "js ''s2''" parseText] absent
  show ?thesis by blast
qed

lemma split_js_nonempty: "split_js sep xs \<noteq> []"
  by (induction xs) (auto split: list.splits)

lemma split_js_append: "split_js sep (xs @ sep # ys) = split_js sep xs @ split_js sep ys"
proof (induction xs)
  case Nil
  show ?case by simp
next
  case (Cons c xs)
  obtain l ls where "split_js sep xs = l # ls"
    using split_js_nonempty [of sep xs] by (cases "split_js sep xs") auto
  with Cons show ?case by simp
qed

lemma split_js_no_sep: "sep \<notin> set xs \<Longrightarrow> split_js sep xs = [xs]"
  by (induction xs) auto

lemma trim_Nil: "trim [] = []"
  by (simp add: trim_def)

lemma lines_append:
  assumes "c = [] \<or> last c = NL"
  shows "filter (\<lambda>line. trim line \<noteq> []) (split_js NL (c @ rest)) =
         filter (\<lambda>line. trim line \<noteq> []) (split_js NL c) @
         filter (\<lambda>line. trim line \<noteq> []) (split_js NL rest)"
proof (cases "c = []")
  case True
  then show ?thesis by (simp add: trim_Nil)
next
  case False
  with assms obtain c' where c: "c = c' @ [NL]"
    by (metis append_butlast_last_id)
  have "split_js NL (c @ rest) = split_js NL c' @ split_js NL rest"
    using split_js_append [of NL c' rest] by (simp add: c)
  moreover have "split_js NL c = split_js NL c' @ [[]]"
    using split_js_append [of NL c' "[]"] by (simp add: c)
  ultimately show ?thesis by (simp add: trim_Nil)
qed

lemma lines_of_line:
  assumes "NL \<notin> set s" and "trim s \<noteq> []"
  shows "filter (\<lambda>line. trim line \<noteq> []) (split_js NL (s @ [NL])) = [s]"
proof -
  have "split_js NL (s @ [NL]) = [s, []]"
    using split_js_append [of NL s "[]"] assms(1) by (simp add: split_js_no_sep)
  with assms(2) show ?thesis by (simp add: trim_Nil)
qed

lemma readMessages_append:
  assumes "c = [] \<or> last c = NL"
      and "readMessages parse (TextFile c) = Inr old"
      and "parse (stringify m) = Some m"
      and "NL \<notin> set (stringify m)"
      and "trim (stringify m) \<noteq> []"
  shows "readMessages parse (TextFile (c @ stringify m @ [NL])) = Inr (old @ [m])"
proof -
  let ?nb = "\<lambda>line. trim line \<noteq> []"
  from assms(2) have old: "those (map parse (filter ?nb (split_js NL c))) = Some old"
    by (auto simp: readMessages_def Let_def split: option.splits)
  have "filter ?nb (split_js NL (c @ stringify m @ [NL])) =
        filter ?nb (split_js NL c) @ [stringify m]"
    using lines_append [OF assms(1), of "stringify m @ [NL]"] lines_of_line [OF assms(4,5)]
    by simp
  then have "those (map parse (filter ?nb (split_js NL (c @ stringify m @ [NL])))) =
             Some (old @ [m])"
    using those_append [OF old, of "[parse (stringify m)]" "[m]"] by (simp add: assms(3))
  then show ?thesis by (simp add: readMessages_def)
qed

lemma appendAll_present:
  assumes "files d (path sid) = Some (TextFile c)"
      and "c = [] \<or> last c = NL"
      and "readMessages parse (TextFile c) = Inr old"
      and "\<forall>m \<in> set ms. parse (stringify m) = Some m \<and> NL \<notin> set (stringify m)
             \<and> trim (stringify m) \<noteq> []"
  shows "\<exists>d'. appendAll path stringify sid ms d = (Inr (), d') \<and>
               getAgentSessionMessages path parse d' sid = old @ ms"
  using assms
proof (induction ms arbitrary: d c old)
  case Nil
  then show ?case by (simp add: getAgentSessionMessages_def)
next
  case (Cons m ms)
  let ?c = "c @ stringify m @ [NL]"
  let ?d = "d\<lparr>files := (files d)(path sid \<mapsto> TextFile ?c)\<rparr>"
  have step: "appendAgentMessage path stringify sid m d = (Inr (), ?d)"
    using Cons.prems(1) by (simp add: appendAgentMessage_def Let_def)
  have f: "files ?d (path sid) = Some (TextFile ?c)" by simp
  have e: "?c = [] \<or> last ?c = NL" by simp
  have r: "readMessages parse (TextFile ?c) = Inr (old @ [m])"
    using readMessages_append [OF Cons.prems(2,3)] Cons.prems(4) by simp
  have rest: "\<forall>m \<in> set ms. parse (stringify m) = Some m \<and> NL \<notin> set (stringify m)
             \<and> trim (stringify m) \<noteq> []"
    using Cons.prems(4) by simp
  from Cons.IH [of ?d ?c "old @ [m]", OF f e r rest] step show ?case by simp
qed

text \<open>
  C6. Appending the messages \<open>ms\<close> one after the other to a session succeeds, and
  reading the session back gives \<open>ms\<close> in order, once each, after the messages \<open>old\<close>
  that were read before: none for a session that has no transcript yet, and those of a
  transcript of complete lines otherwise. The codec is the one of \<open>JSON.stringify\<close> and
  \<open>JSON.parse\<close> on the messages appended: the text of a message parses back to the
  message, has no line feed, and is not blank.
\<close>

theorem append_read_roundtrip:
  assumes codec: "\<forall>m \<in> set ms. parse (stringify m) = Some m \<and> NL \<notin> set (stringify m)
             \<and> trim (stringify m) \<noteq> []"
      and start: "(files d (path sid) = None \<and> old = []) \<or>
                  (\<exists>c. files d (path sid) = Some (TextFile c) \<and> (c = [] \<or> last c = NL) \<and>
                       readMessages parse (TextFile c) = Inr old)"
  shows "\<exists>d'. appendAll path stringify sid ms d = (Inr (), d') \<and>
               getAgentSessionMessages path parse d' sid = old @ ms"
proof -
  from start consider
      (absent) "files d (path sid) = None" "old = []"
    | (present) c where "files d (path sid) = Some (TextFile c)" "c = [] \<or> last c = NL"
        "readMessages parse (TextFile c) = Inr old"
    by auto
  then show ?thesis
  proof cases
  case absent
  note old = absent(2)
  note absent = absent(1)
  show ?thesis
  proof (cases ms)
    case Nil
    with absent old show ?thesis by (simp add: getAgentSessionMessages_def)
  next
    case (Cons m rest)
    let ?c = "stringify m @ [NL]"
    let ?d = "d\<lparr>files := (files d)(path sid \<mapsto> TextFile ?c)\<rparr>"
    have step: "appendAgentMessage path stringify sid m d = (Inr (), ?d)"
      using absent by (simp add: appendAgentMessage_def Let_def)
    have empty: "readMessages parse (TextFile []) = Inr ([] :: 'a list)"
      by (simp add: readMessages_def trim_Nil)
    have r: "readMessages parse (TextFile ?c) = Inr [m]"
      using readMessages_append [of "[]" parse "[]" stringify m] empty codec Cons by simp
    have f: "files ?d (path sid) = Some (TextFile ?c)" by simp
    have e: "?c = [] \<or> last ?c = NL" by simp
    have c': "\<forall>m \<in> set rest. parse (stringify m) = Some m \<and> NL \<notin> set (stringify m)
             \<and> trim (stringify m) \<noteq> []"
      using codec Cons by simp
    from appendAll_present [of ?d path sid ?c parse "[m]" rest stringify, OF f e r c'] step Cons old
    show ?thesis by simp
  qed
next
  case present
  from appendAll_present
         [where d = d and path = path and sid = sid and c = c and parse = parse and old = old
            and ms = ms and stringify = stringify, OF present codec]
  show ?thesis .
qed
qed

lemma codec_hello:
  "parseText (stringifyText (js ''hello'')) = Some (js ''hello'')"
  "NL \<notin> set (stringifyText (js ''hello''))"
  "trim (stringifyText (js ''hello'')) \<noteq> []"
  by (simp_all add: parseText_def stringifyText_def js_def NL_def trim_def isWhiteSpace_def)

lemma codec_world:
  "parseText (stringifyText (js ''a b'')) = Some (js ''a b'')"
  "NL \<notin> set (stringifyText (js ''a b''))"
  "trim (stringifyText (js ''a b'')) \<noteq> []"
  by (simp_all add: parseText_def stringifyText_def js_def NL_def trim_def isWhiteSpace_def)

theorem append_read_roundtrip_witness:
  "\<exists>d'. appendAll sessionPath stringifyText (js ''s1'') [js ''hello'', js ''a b'']
           (mkDisk IndexAbsent) = (Inr (), d') \<and>
        getAgentSessionMessages sessionPath parseText d' (js ''s1'') = [js ''hello'', js ''a b'']"
proof -
  have codec: "\<forall>m \<in> set [js ''hello'', js ''a b''].
      parseText (stringifyText m) = Some m \<and> NL \<notin> set (stringifyText m)
      \<and> trim (stringifyText m) \<noteq> []"
    using codec_hello codec_world by simp
  have start: "(files (mkDisk IndexAbsent) (sessionPath (js ''s1'')) = None \<and> ([] :: jsstring list) = []) \<or>
      (\<exists>c. files (mkDisk IndexAbsent) (sessionPath (js ''s1'')) = Some (TextFile c) \<and>
           (c = [] \<or> last c = NL) \<and> readMessages parseText (TextFile c) = Inr [])"
    by (simp add: mkDisk_def)
  from append_read_roundtrip
         [of "[js ''hello'', js ''a b'']" parseText stringifyText "mkDisk IndexAbsent" sessionPath
             "js ''s1''" "[]", OF codec start]
  show ?thesis by simp
qed

section \<open>Properties of the workspace watcher\<close>

lemma run_Cons:
  "run m ((now, e) # evs) =
     (fst (advance now m) @ fst (run (handle now e (snd (advance now m))) evs),
      snd (run (handle now e (snd (advance now m))) evs))"
  by (simp add: Let_def split: prod.splits)

lemma deliveries_eq:
  "deliveries m evs horizon = fst (run m evs) @ fst (advance horizon (snd (run m evs)))"
  by (simp add: deliveries_def Let_def split: prod.splits)

lemma deliveries_Cons:
  "deliveries m ((now, e) # evs) horizon =
     fst (advance now m) @ deliveries (handle now e (snd (advance now m))) evs horizon"
  by (simp add: deliveries_eq run_Cons del: run.simps)

lemma advance_fields:
  "started (snd (advance now m)) = started m"
  "watcher (snd (advance now m)) = watcher m"
  "destroyedWindows (snd (advance now m)) = destroyedWindows m"
  "timeouts (snd (advance now m)) = filter (\<lambda>t. \<not> due t \<le> now) (timeouts m)"
  by (simp_all add: advance_def)

lemma setTimer_fields:
  "started (setTimer now k c m) = started m"
  "watcher (setTimer now k c m) = watcher m"
  "destroyedWindows (setTimer now k c m) = destroyedWindows m"
  by (simp_all add: setTimer_def)

lemma onChange_fields:
  "started (onChange now f k m) = started m"
  "watcher (onChange now f k m) = watcher m"
  "destroyedWindows (onChange now f k m) = destroyedWindows m"
  by (simp_all add: onChange_def setTimer_fields split: option.splits)

lemma fold_onChange_fields:
  "started (foldl (\<lambda>m' k. if isOpen (started m' ! k) then onChange now f k m' else m') m ks)
     = started m \<and>
   watcher (foldl (\<lambda>m' k. if isOpen (started m' ! k) then onChange now f k m' else m') m ks)
     = watcher m \<and>
   destroyedWindows
     (foldl (\<lambda>m' k. if isOpen (started m' ! k) then onChange now f k m' else m') m ks)
     = destroyedWindows m"
  by (induction ks arbitrary: m) (simp_all add: onChange_fields)

lemma rawChange_fields:
  "started (rawChange now f m) = started m"
  "watcher (rawChange now f m) = watcher m"
  "destroyedWindows (rawChange now f m) = destroyedWindows m"
  using fold_onChange_fields [of now f m "[0..<length (started m)]"]
  by (simp_all add: rawChange_def)

lemma rawChange_single:
  assumes "single w m"
  shows "rawChange now f m = (case category f of None \<Rightarrow> m | Some c \<Rightarrow> setTimer now 0 c m)"
  using assms
  by (auto simp: single_def rawChange_def onChange_def category_def isDestroyed_def
           split: option.splits)

lemma single_advance: "single w m \<Longrightarrow> single w (snd (advance now m))"
  by (simp add: single_def advance_fields)

lemma single_setTimer: "single w m \<Longrightarrow> single w (setTimer now 0 c m)"
  by (auto simp: single_def setTimer_def)

lemma single_rawChange: "single w m \<Longrightarrow> single w (rawChange now f m)"
  by (simp add: rawChange_single single_setTimer split: option.splits)

lemma advance_single:
  assumes "single w m"
  shows "filter (\<lambda>n. snd (snd n) = c) (fst (advance now m))
         = map (\<lambda>d. (d, w, c)) (filter (\<lambda>d. d \<le> now) (pending c m))"
proof -
  have alive: "\<not> isDestroyed m (owner t)" if "t \<in> set (timeouts m)" for t
    using assms that by (simp add: single_def isDestroyed_def)
  have ntf: "notification m t = (due t, w, kind t)" if "t \<in> set (timeouts m)" for t
    using assms that by (simp add: single_def notification_def)
  have "filter (\<lambda>n. snd (snd n) = c) (map (notification m) ts)
        = map (\<lambda>d. (d, w, c)) (map due (filter (\<lambda>t. kind t = c) ts))"
    if "set ts \<subseteq> set (timeouts m)" for ts
    using that by (induction ts) (auto simp: ntf)
  from this [of "filter (\<lambda>t. due t \<le> now \<and> \<not> isDestroyed m (owner t)) (timeouts m)"]
  have "filter (\<lambda>n. snd (snd n) = c) (fst (advance now m))
        = map (\<lambda>d. (d, w, c))
            (map due (filter (\<lambda>t. kind t = c)
               (filter (\<lambda>t. due t \<le> now \<and> \<not> isDestroyed m (owner t)) (timeouts m))))"
    by (simp add: advance_def)
  also have "filter (\<lambda>t. kind t = c)
               (filter (\<lambda>t. due t \<le> now \<and> \<not> isDestroyed m (owner t)) (timeouts m))
             = filter (\<lambda>t. due t \<le> now) (filter (\<lambda>t. kind t = c) (timeouts m))"
    using alive by (auto intro: filter_cong)
  finally show ?thesis
    by (simp add: pending_def filter_map comp_def)
qed

lemma pending_advance:
  "pending c (snd (advance now m)) = filter (\<lambda>d. \<not> d \<le> now) (pending c m)"
  by (simp add: pending_def advance_fields filter_map comp_def conj_commute)

lemma pending_setTimer:
  assumes "single w m"
  shows "pending c (setTimer now 0 c' m) = (if c' = c then [now + DEBOUNCE_MS] else pending c m)"
proof -
  have "filter (\<lambda>t. kind t = c) (filter (\<lambda>t. \<not> (owner t = 0 \<and> kind t = c')) (timeouts m))
        = (if c' = c then [] else filter (\<lambda>t. kind t = c) (timeouts m))"
    using assms by (auto simp: single_def filter_empty_conv intro: filter_cong)
  then show ?thesis by (simp add: pending_def setTimer_def)
qed

lemma pending_rawChange:
  assumes "single w m"
  shows "pending c (rawChange now f m)
         = (if category f = Some c then [now + DEBOUNCE_MS] else pending c m)"
  using pending_setTimer [OF assms]
  by (simp add: rawChange_single [OF assms] split: option.splits)

lemma armTimes_Cons:
  "armTimes c ((t, f) # changes) =
     (if category f = Some c then t # armTimes c changes else armTimes c changes)"
  by (simp add: armTimes_def)

lemma armTimes_subset: "set (armTimes c changes) \<subseteq> set (map fst changes)"
  by (auto simp: armTimes_def)

lemma firings_late:
  assumes "length ps \<le> 1" and "\<forall>t \<in> set ts. t0 \<le> t"
  shows "firings ps ts = filter (\<lambda>d. d \<le> t0) ps @ firings (filter (\<lambda>d. \<not> d \<le> t0) ps) ts"
proof (cases ps)
  case Nil
  then show ?thesis by simp
next
  case (Cons d ds)
  with assms(1) have ps: "ps = [d]" by simp
  show ?thesis
  proof (cases ts)
    case Nil
    then show ?thesis by (simp add: ps)
  next
    case (Cons t ts')
    with assms(2) have "t0 \<le> t" by simp
    then show ?thesis by (auto simp: ps Cons)
  qed
qed

lemma firings_spec: "firings [t + DEBOUNCE_MS] ts = debounce_spec (t # ts)"
  by (induction ts arbitrary: t) auto

lemma firings_Nil: "firings [] ts = debounce_spec ts"
  by (cases ts) (simp_all add: firings_spec)

lemma debounce_spec_bound: "set (debounce_spec ts) \<subseteq> (\<lambda>t. t + DEBOUNCE_MS) ` set ts"
  by (induction ts rule: debounce_spec.induct) auto

lemma debounce_spec_burst:
  "successively (\<lambda>a b. b < a + DEBOUNCE_MS) (t # ts) \<Longrightarrow>
     debounce_spec (t # ts) = [last (t # ts) + DEBOUNCE_MS]"
  by (induction ts arbitrary: t) auto

lemma run_firings:
  assumes "single w m" and "length (pending c m) \<le> 1" and "sorted (map fst changes)"
  shows "single w (snd (run m (changeEvents changes))) \<and>
         (\<exists>ds. filter (\<lambda>n. snd (snd n) = c) (fst (run m (changeEvents changes)))
                 = map (\<lambda>d. (d, w, c)) ds \<and>
               ds @ pending c (snd (run m (changeEvents changes)))
                 = firings (pending c m) (armTimes c changes))"
  using assms
proof (induction changes arbitrary: m)
  case Nil
  then show ?case by (simp add: changeEvents_def armTimes_def)
next
  case (Cons a changes)
  obtain t f where a: "a = (t, f)" by (cases a)
  let ?m1 = "snd (advance t m)"
  let ?m2 = "handle t (RawChange f) ?m1"
  let ?now = "filter (\<lambda>d. d \<le> t) (pending c m)"
  have ev: "changeEvents (a # changes) = (t, RawChange f) # changeEvents changes"
    by (simp add: a changeEvents_def)
  have h: "?m2 = rawChange t f ?m1" by (simp add: handle_def)
  have s1: "single w ?m1" using Cons.prems(1) by (rule single_advance)
  have s2: "single w ?m2" unfolding h using s1 by (rule single_rawChange)
  have rest: "sorted (map fst changes)" using Cons.prems(3) by simp
  have later: "\<forall>t' \<in> set (armTimes c changes). t \<le> t'"
    using Cons.prems(3) a armTimes_subset [of c changes] by auto
  have out1: "filter (\<lambda>n. snd (snd n) = c) (fst (advance t m)) = map (\<lambda>d. (d, w, c)) ?now"
    using Cons.prems(1) by (rule advance_single)
  have p1: "pending c ?m1 = filter (\<lambda>d. \<not> d \<le> t) (pending c m)"
    by (rule pending_advance)
  have p2: "pending c ?m2 = (if category f = Some c then [t + DEBOUNCE_MS] else pending c ?m1)"
    unfolding h using s1 by (rule pending_rawChange)
  have l2: "length (pending c ?m2) \<le> 1"
  proof -
    have "length (filter (\<lambda>d. \<not> d \<le> t) (pending c m)) \<le> length (pending c m)"
      by (rule length_filter_le)
    with Cons.prems(2) have "length (filter (\<lambda>d. \<not> d \<le> t) (pending c m)) \<le> 1"
      by linarith
    then show ?thesis by (simp add: p2 p1)
  qed
  from Cons.IH [OF s2 l2 rest] obtain ds where
    ih: "single w (snd (run ?m2 (changeEvents changes)))"
      "filter (\<lambda>n. snd (snd n) = c) (fst (run ?m2 (changeEvents changes)))
         = map (\<lambda>d. (d, w, c)) ds"
      "ds @ pending c (snd (run ?m2 (changeEvents changes)))
         = firings (pending c ?m2) (armTimes c changes)"
    by blast
  have step: "?now @ firings (pending c ?m2) (armTimes c changes)
              = firings (pending c m) (armTimes c (a # changes))"
  proof (cases "category f = Some c")
    case True
    then show ?thesis using a by (simp add: p2 armTimes_Cons)
  next
    case False
    then show ?thesis
      using a firings_late [OF Cons.prems(2) later] by (simp add: p2 p1 armTimes_Cons)
  qed
  show ?case
  proof (intro conjI exI [of _ "?now @ ds"])
    show "single w (snd (run m (changeEvents (a # changes))))"
      unfolding ev run_Cons using ih(1) by simp
    show "filter (\<lambda>n. snd (snd n) = c) (fst (run m (changeEvents (a # changes))))
          = map (\<lambda>d. (d, w, c)) (?now @ ds)"
      unfolding ev run_Cons using out1 ih(2) by simp
    show "(?now @ ds) @ pending c (snd (run m (changeEvents (a # changes))))
          = firings (pending c m) (armTimes c (a # changes))"
      unfolding ev run_Cons using ih(3) step by simp
  qed
qed

lemma single_start: "single w (startWorkspaceWatcher w True initialModule)"
  by (simp add: single_def startWorkspaceWatcher_def initialModule_def)

lemma debounce_channel:
  assumes "sorted (map fst changes)"
      and "\<forall>t \<in> set (armTimes c changes). t + DEBOUNCE_MS \<le> horizon"
  shows "filter (\<lambda>n. snd (snd n) = c)
           (deliveries (startWorkspaceWatcher w True initialModule) (changeEvents changes) horizon)
         = map (\<lambda>d. (d, w, c)) (debounce_spec (armTimes c changes))"
proof -
  let ?m = "startWorkspaceWatcher w True initialModule"
  let ?r = "run ?m (changeEvents changes)"
  have p0: "pending c ?m = []"
    by (simp add: pending_def startWorkspaceWatcher_def initialModule_def)
  from run_firings [OF single_start _ assms(1), of c w] obtain ds where
    r: "single w (snd ?r)"
      "filter (\<lambda>n. snd (snd n) = c) (fst ?r) = map (\<lambda>d. (d, w, c)) ds"
      "ds @ pending c (snd ?r) = debounce_spec (armTimes c changes)"
    by (auto simp: p0 firings_Nil)
  have "set (pending c (snd ?r)) \<subseteq> set (debounce_spec (armTimes c changes))"
    using r(3) [symmetric] by simp
  then have "\<forall>d \<in> set (pending c (snd ?r)). d \<le> horizon"
    using debounce_spec_bound [of "armTimes c changes"] assms(2) by auto
  then have "filter (\<lambda>d. d \<le> horizon) (pending c (snd ?r)) = pending c (snd ?r)"
    by (simp add: filter_id_conv)
  then have "filter (\<lambda>n. snd (snd n) = c) (fst (advance horizon (snd ?r)))
             = map (\<lambda>d. (d, w, c)) (pending c (snd ?r))"
    using advance_single [OF r(1), of c horizon] by simp
  with r(2) have "filter (\<lambda>n. snd (snd n) = c) (deliveries ?m (changeEvents changes) horizon)
                  = map (\<lambda>d. (d, w, c)) (ds @ pending c (snd ?r))"
    by (simp add: deliveries_eq)
  then show ?thesis by (simp only: r(3))
qed

lemma endsWith_suffix: "endsWith s x \<longleftrightarrow> suffix x s"
proof
  assume "endsWith s x"
  then have d: "drop (length s - length x) s = x"
    by (simp add: endsWith_def)
  have "s = take (length s - length x) s @ drop (length s - length x) s"
    by simp
  then have "s = take (length s - length x) s @ x"
    by (simp only: d)
  then show "suffix x s" by (rule suffixI)
next
  assume "suffix x s"
  then obtain zs where "s = zs @ x" by (auto simp: suffix_def)
  then show "endsWith s x" by (simp add: endsWith_def)
qed

lemma take_prefix_iff: "take (length x) ys = x \<longleftrightarrow> prefix x ys"
proof
  assume t: "take (length x) ys = x"
  have "ys = take (length x) ys @ drop (length x) ys" by simp
  then have "ys = x @ drop (length x) ys" by (simp only: t)
  then show "prefix x ys" by (rule prefixI)
next
  assume "prefix x ys"
  then obtain zs where "ys = x @ zs" by (auto simp: prefix_def)
  then show "take (length x) ys = x" by simp
qed

lemma includes_sublist: "includes_js s x \<longleftrightarrow> sublist x s"
proof (induction s)
  case Nil
  show ?case by auto
next
  case (Cons c cs)
  have "take (length x) (c # cs) = x \<longleftrightarrow> prefix x (c # cs)"
    by (rule take_prefix_iff)
  with Cons show ?case by (simp only: includes_js.simps sublist_Cons_right)
qed

lemma category_changeKind:
  assumes "\<forall>name. f = Some name \<longrightarrow> \<not> backslashSkills name"
  shows "category f = changeKind f"
proof (cases f)
  case None
  then show ?thesis by (simp add: category_def changeKind_def)
next
  case (Some name)
  with assms have nb: "\<not> sublist ([0x5C] @ js ''skills'') name"
    by (simp add: backslashSkills_def)
  have part: "sublist ([0x5C] @ js ''skills'') ([0x5C] @ js ''skills/'')"
    by (intro prefix_imp_sublist) (simp add: js_def)
  have "\<not> sublist ([0x5C] @ js ''skills/'') name"
  proof
    assume "sublist ([0x5C] @ js ''skills/'') name"
    with part have "sublist ([0x5C] @ js ''skills'') name"
      by (rule sublist_order.order.trans)
    with nb show False by simp
  qed
  then have "isCapabilitiesChange name = capabilityName name"
    by (simp add: isCapabilitiesChange_def capabilityName_def endsWith_suffix includes_sublist)
  with Some show ?thesis by (simp add: category_def changeKind_def)
qed

lemma armTimes_timesOf:
  assumes "\<forall>(t, f) \<in> set changes. \<forall>name. f = Some name \<longrightarrow> \<not> backslashSkills name"
  shows "armTimes c changes = timesOf c changes"
proof -
  have "filter (\<lambda>(t, f). category f = Some c) changes
        = filter (\<lambda>(t, f). changeKind f = Some c) changes"
    using assms by (intro filter_cong) (auto simp: category_changeKind)
  then show ?thesis by (simp add: armTimes_def timesOf_def)
qed

text \<open>
  C5, as the code has it. Take a started watcher, with its window, and any run of raw
  changes in the order of their times, none with a \<open>skills\<close> segment behind a
  backslash in its name, and a horizon by which the window of each change has elapsed.
  With the categories as worded above (a capability change ends with \<open>/mcp.json\<close>, or
  with \<open>mcp.json\<close> behind a backslash, or has \<open>/skills/\<close> in it; a change with another
  name is a file change; a change with no name is ignored), the notifications of one
  category are those of a debouncer that sees the changes of that category alone: one
  notification, 500 ms later, for each change that no change of its category follows
  within 500 ms. So, when each change of the category comes less than 500 ms after the
  one before, exactly one notification of the category is delivered, 500 ms after the
  last of them, whatever changes of the other category come in between.
\<close>

theorem debounce_collapse:
  assumes "sorted (map fst changes)"
      and "\<forall>(t, f) \<in> set changes. \<forall>name. f = Some name \<longrightarrow> \<not> backslashSkills name"
      and "\<forall>t \<in> set (timesOf c changes). t + DEBOUNCE_MS \<le> horizon"
  shows "filter (\<lambda>n. snd (snd n) = c)
           (deliveries (startWorkspaceWatcher w True initialModule) (changeEvents changes) horizon)
         = map (\<lambda>d. (d, w, c)) (debounce_spec (timesOf c changes)) \<and>
         (timesOf c changes \<noteq> [] \<and>
          successively (\<lambda>a b. b < a + DEBOUNCE_MS) (timesOf c changes) \<longrightarrow>
          filter (\<lambda>n. snd (snd n) = c)
            (deliveries (startWorkspaceWatcher w True initialModule) (changeEvents changes)
               horizon)
          = [(last (timesOf c changes) + DEBOUNCE_MS, w, c)])"
proof -
  let ?out = "filter (\<lambda>n. snd (snd n) = c)
           (deliveries (startWorkspaceWatcher w True initialModule) (changeEvents changes) horizon)"
  have eq: "armTimes c changes = timesOf c changes"
    using assms(2) by (rule armTimes_timesOf)
  have general: "?out = map (\<lambda>d. (d, w, c)) (debounce_spec (timesOf c changes))"
    using debounce_channel [OF assms(1), of c horizon w] assms(3) by (simp add: eq)
  have few: "?out = [(last (timesOf c changes) + DEBOUNCE_MS, w, c)]"
    if ne: "timesOf c changes \<noteq> []"
      and succ: "successively (\<lambda>a b. b < a + DEBOUNCE_MS) (timesOf c changes)"
  proof -
    obtain t ts where ts: "timesOf c changes = t # ts"
      using ne by (cases "timesOf c changes") auto
    from debounce_spec_burst [of t ts] succ ts general show ?thesis by simp
  qed
  from general few show ?thesis by blast
qed

lemma kind_samples:
  "changeKind (Some skillFile) = Some CAPABILITIES_CHANGED"
  "changeKind (Some otherFile) = Some WORKSPACE_FILES_CHANGED"
  "changeKind None = None"
  "\<not> backslashSkills skillFile"
  "\<not> backslashSkills otherFile"
  by (simp_all add: changeKind_def capabilityName_def backslashSkills_def
        endsWith_suffix [symmetric] includes_sublist [symmetric] endsWith_def skillFile_def
        otherFile_def js_def)

lemma burst_times:
  "timesOf CAPABILITIES_CHANGED burst = [0, 50, 100, 150, 200]"
  "timesOf WORKSPACE_FILES_CHANGED burst = [120]"
  by (simp_all add: timesOf_def burst_def kind_samples)

lemma burst_ok:
  "sorted (map fst burst)"
  "\<forall>(t, f) \<in> set burst. \<forall>name. f = Some name \<longrightarrow> \<not> backslashSkills name"
  by (auto simp: burst_def kind_samples)

theorem debounce_collapse_witness:
  "filter (\<lambda>n. snd (snd n) = CAPABILITIES_CHANGED)
     (deliveries (startWorkspaceWatcher 1 True initialModule) (changeEvents burst) 1000)
     = [(700, 1, CAPABILITIES_CHANGED)] \<and>
   filter (\<lambda>n. snd (snd n) = WORKSPACE_FILES_CHANGED)
     (deliveries (startWorkspaceWatcher 1 True initialModule) (changeEvents burst) 1000)
     = [(620, 1, WORKSPACE_FILES_CHANGED)]"
  using debounce_collapse [OF burst_ok, of CAPABILITIES_CHANGED 1000 1]
        debounce_collapse [OF burst_ok, of WORKSPACE_FILES_CHANGED 1000 1]
  by (simp add: burst_times DEBOUNCE_MS_def)

lemma category_samples:
  "category (Some skillFile) = Some CAPABILITIES_CHANGED"
  "category (Some rootSkillFile) = Some WORKSPACE_FILES_CHANGED"
  by (simp_all add: category_def isCapabilitiesChange_def endsWith_def skillFile_def
        rootSkillFile_def js_def)

lemma rootBurst_times:
  "armTimes CAPABILITIES_CHANGED rootBurst = []"
  "armTimes WORKSPACE_FILES_CHANGED rootBurst = [0, 50, 100, 150, 200]"
  "sorted (map fst rootBurst)"
  by (simp_all add: armTimes_def rootBurst_def category_samples)

text \<open>
  C5 as the spec states it fails on the categories: five changes of
  \<open>skills/foo/SKILL.md\<close> within the window, a name that goes through a skills directory,
  give no capability notification and one file notification.
\<close>

theorem root_skills_counterexample:
  "sublist (js ''skills/'') rootSkillFile \<and>
   filter (\<lambda>n. snd (snd n) = CAPABILITIES_CHANGED)
     (deliveries (startWorkspaceWatcher 1 True initialModule) (changeEvents rootBurst) 1000) = [] \<and>
   filter (\<lambda>n. snd (snd n) = WORKSPACE_FILES_CHANGED)
     (deliveries (startWorkspaceWatcher 1 True initialModule) (changeEvents rootBurst) 1000)
   = [(700, 1, WORKSPACE_FILES_CHANGED)]"
proof -
  have "sublist (js ''skills/'') rootSkillFile"
    by (simp add: includes_sublist [symmetric] rootSkillFile_def js_def)
  moreover have "filter (\<lambda>n. snd (snd n) = CAPABILITIES_CHANGED)
     (deliveries (startWorkspaceWatcher 1 True initialModule) (changeEvents rootBurst) 1000) = []"
    using debounce_channel [OF rootBurst_times(3), of CAPABILITIES_CHANGED 1000 1]
    by (simp add: rootBurst_times)
  moreover have "filter (\<lambda>n. snd (snd n) = WORKSPACE_FILES_CHANGED)
     (deliveries (startWorkspaceWatcher 1 True initialModule) (changeEvents rootBurst) 1000)
     = [(700, 1, WORKSPACE_FILES_CHANGED)]"
    using debounce_channel [OF rootBurst_times(3), of WORKSPACE_FILES_CHANGED 1000 1]
    by (simp add: rootBurst_times DEBOUNCE_MS_def)
  ultimately show ?thesis by blast
qed

lemma advance_alive:
  "\<forall>n \<in> set (fst (advance now m)). fst (snd n) \<notin> set (destroyedWindows m)"
  by (auto simp: advance_def notification_def isDestroyed_def)

lemma handle_destroyed:
  "set (destroyedWindows m) \<subseteq> set (destroyedWindows (handle now e m))"
  by (cases e)
     (auto simp: handle_def rawChange_fields startWorkspaceWatcher_def stopWorkspaceWatcher_def
           split: option.splits)

lemma deliveries_alive:
  "\<forall>n \<in> set (deliveries m evs horizon). fst (snd n) \<notin> set (destroyedWindows m)"
proof (induction evs arbitrary: m)
  case Nil
  show ?case using advance_alive [of horizon m] by (simp add: deliveries_eq)
next
  case (Cons a evs)
  obtain now e where a: "a = (now, e)" by (cases a)
  let ?m2 = "handle now e (snd (advance now m))"
  have "set (destroyedWindows m) \<subseteq> set (destroyedWindows ?m2)"
    using handle_destroyed [of "snd (advance now m)" now e] by (simp add: advance_fields)
  with Cons.IH [of ?m2] advance_alive [of now m] show ?case
    unfolding a deliveries_Cons by auto
qed

lemma fold_closed:
  assumes "\<forall>k \<in> set ks. \<not> isOpen (started m ! k)"
  shows "foldl (\<lambda>m' k. if isOpen (started m' ! k) then onChange now f k m' else m') m ks = m"
  using assms by (induction ks) simp_all

lemma rawChange_quiet: "quiet m \<Longrightarrow> rawChange now f m = m"
  by (simp add: quiet_def rawChange_def fold_closed)

lemma handle_quiet: "quiet m \<Longrightarrow> afterStop e \<Longrightarrow> handle now e m = m"
  by (cases e)
     (simp_all add: handle_def rawChange_quiet afterStop_def stopWorkspaceWatcher_def quiet_def)

lemma quiet_advance: "quiet m \<Longrightarrow> quiet (snd (advance now m))"
  by (simp add: quiet_def advance_fields)

lemma advance_notification:
  "notification (snd (advance now m)) = notification m"
  "isDestroyed (snd (advance now m)) = isDestroyed m"
  by (auto simp: notification_def isDestroyed_def advance_fields fun_eq_iff)

lemma quiet_deliveries:
  assumes "quiet m" and "\<forall>(t, e) \<in> set evs. afterStop e \<and> t \<le> horizon"
  shows "mset (deliveries m evs horizon) =
         mset (map (notification m)
                 (filter (\<lambda>t. due t \<le> horizon \<and> \<not> isDestroyed m (owner t)) (timeouts m)))"
  using assms
proof (induction evs arbitrary: m)
  case Nil
  show ?case by (simp add: deliveries_eq advance_def)
next
  case (Cons a evs)
  obtain now e where a: "a = (now, e)" by (cases a)
  let ?m1 = "snd (advance now m)"
  let ?alive = "\<lambda>t. \<not> isDestroyed m (owner t)"
  have now: "now \<le> horizon" and e: "afterStop e" using Cons.prems(2) a by simp_all
  have q1: "quiet ?m1" using Cons.prems(1) by (rule quiet_advance)
  have h: "handle now e ?m1 = ?m1" using q1 e by (rule handle_quiet)
  have rest: "\<forall>(t, e) \<in> set evs. afterStop e \<and> t \<le> horizon" using Cons.prems(2) by simp
  have ih: "mset (deliveries ?m1 evs horizon) =
            mset (map (notification m)
                    (filter (\<lambda>t. due t \<le> horizon \<and> ?alive t)
                       (filter (\<lambda>t. \<not> due t \<le> now) (timeouts m))))"
    using Cons.IH [OF q1 rest] by (simp add: advance_notification advance_fields)
  have first: "fst (advance now m) =
               map (notification m) (filter (\<lambda>t. due t \<le> now \<and> ?alive t) (timeouts m))"
    by (simp add: advance_def)
  have split: "mset (filter (\<lambda>t. due t \<le> horizon \<and> ?alive t) (timeouts m)) =
               mset (filter (\<lambda>t. due t \<le> now \<and> ?alive t) (timeouts m)) +
               mset (filter (\<lambda>t. due t \<le> horizon \<and> ?alive t)
                       (filter (\<lambda>t. \<not> due t \<le> now) (timeouts m)))"
  proof -
    let ?xs = "filter (\<lambda>t. due t \<le> horizon \<and> ?alive t) (timeouts m)"
    have a: "mset ?xs = mset (filter (\<lambda>t. due t \<le> now) ?xs)
                     + mset (filter (\<lambda>t. \<not> due t \<le> now) ?xs)"
      using multiset_partition [of "mset ?xs" "\<lambda>t. due t \<le> now"]
      by (simp only: mset_filter)
    have b: "filter (\<lambda>t. due t \<le> now) ?xs
                   = filter (\<lambda>t. due t \<le> now \<and> ?alive t) (timeouts m)"
      using now by (auto intro: filter_cong)
    have c: "filter (\<lambda>t. \<not> due t \<le> now) ?xs
                   = filter (\<lambda>t. due t \<le> horizon \<and> ?alive t)
                       (filter (\<lambda>t. \<not> due t \<le> now) (timeouts m))"
      by (auto intro: filter_cong)
    show ?thesis using a unfolding b c .
  qed
  have "mset (deliveries m (a # evs) horizon) =
        mset (fst (advance now m)) + mset (deliveries ?m1 evs horizon)"
    unfolding a deliveries_Cons h by simp
  also have "\<dots> = image_mset (notification m)
                     (mset (filter (\<lambda>t. due t \<le> horizon \<and> ?alive t) (timeouts m)))"
    unfolding first ih split by simp
  finally show ?case by simp
qed

lemma stop_quiet:
  assumes "held m"
  shows "quiet (stopWorkspaceWatcher m)"
proof (cases "watcher m")
  case None
  with assms show ?thesis
    by (auto simp: held_def quiet_def stopWorkspaceWatcher_def)
next
  case (Some k)
  have "\<not> isOpen ((started m)[k := (started m ! k)\<lparr>isOpen := False\<rparr>] ! j)"
    if "j < length (started m)" for j
  proof (cases "j = k")
    case True
    with that show ?thesis by simp
  next
    case False
    with assms that Some show ?thesis by (auto simp: held_def)
  qed
  with Some show ?thesis
    by (simp add: quiet_def stopWorkspaceWatcher_def)
qed

lemma stop_same:
  "timeouts (stopWorkspaceWatcher m) = timeouts m"
  "notification (stopWorkspaceWatcher m) = notification m"
  "isDestroyed (stopWorkspaceWatcher m) = isDestroyed m"
proof -
  show "timeouts (stopWorkspaceWatcher m) = timeouts m"
    by (simp add: stopWorkspaceWatcher_def split: option.splits)
  have w: "win (started (stopWorkspaceWatcher m) ! j) = win (started m ! j)" for j
  proof (cases "watcher m")
    case None
    then show ?thesis by (simp add: stopWorkspaceWatcher_def)
  next
    case (Some k)
    show ?thesis
    proof (cases "j = k \<and> k < length (started m)")
      case True
      with Some show ?thesis by (simp add: stopWorkspaceWatcher_def)
    next
      case False
      with Some show ?thesis
        by (cases "j = k") (simp_all add: stopWorkspaceWatcher_def list_update_beyond)
    qed
  qed
  have d: "destroyedWindows (stopWorkspaceWatcher m) = destroyedWindows m"
    by (simp add: stopWorkspaceWatcher_def split: option.splits)
  show "notification (stopWorkspaceWatcher m) = notification m"
    by (simp add: notification_def fun_eq_iff w)
  show "isDestroyed (stopWorkspaceWatcher m) = isDestroyed m"
    by (simp add: isDestroyed_def fun_eq_iff w d)
qed

text \<open>
  Every open watcher is the held one at the start, after a start that follows a stop, and
  from then on until the next start.
\<close>

lemma quiet_held: "quiet m \<Longrightarrow> held m"
  by (simp add: quiet_def held_def)

lemma held_initial: "held initialModule"
  by (simp add: held_def initialModule_def)

lemma held_start: "quiet m \<Longrightarrow> held (startWorkspaceWatcher w watchOk m)"
  by (auto simp: quiet_def held_def startWorkspaceWatcher_def nth_append less_Suc_eq)

lemma held_rawChange: "held m \<Longrightarrow> held (rawChange now f m)"
  by (simp add: held_def rawChange_fields)

lemma held_advance: "held m \<Longrightarrow> held (snd (advance now m))"
  by (simp add: held_def advance_def)

lemma stopped_deliveries:
  assumes "held m" and "\<forall>(t, e) \<in> set evs. afterStop e \<and> t \<le> horizon"
  shows "mset (deliveries (stopWorkspaceWatcher m) evs horizon) =
         mset (map (notification m)
                 (filter (\<lambda>t. due t \<le> horizon \<and> \<not> isDestroyed m (owner t)) (timeouts m)))"
  using quiet_deliveries [OF stop_quiet [OF assms(1)] assms(2)]
  by (simp add: stop_same)

text \<open>
  C3, as the code has it. From a state in which a window is destroyed, no notification is
  delivered to it, whatever happens. When every open watcher is the one the module holds
  (no start has overwritten a watcher that was still open), then after
  \<open>stopWorkspaceWatcher\<close>, whatever raw changes and further stops follow, the
  notifications delivered by the horizon are those of the timeouts that were pending at
  the stop, each once: a pending timer is not cancelled and sends its notification when
  it is due, unless its window is destroyed, and nothing else is sent.
\<close>

theorem stop_and_destroy:
  "(\<forall>n \<in> set (deliveries m evs horizon). fst (snd n) \<notin> set (destroyedWindows m)) \<and>
   (held m \<and> (\<forall>(t, e) \<in> set evs. afterStop e \<and> t \<le> horizon) \<longrightarrow>
      mset (deliveries (stopWorkspaceWatcher m) evs horizon) =
      mset (map (notification m)
              (filter (\<lambda>t. due t \<le> horizon \<and> \<not> isDestroyed m (owner t)) (timeouts m))))"
  using deliveries_alive [of m evs horizon] stopped_deliveries [of m evs horizon] by blast

lemma armed_eq:
  "armed = \<lparr>watcher = Some 0, started = [\<lparr>isOpen = True, win = 1\<rparr>],
            timeouts = [\<lparr>due = 500, owner = 0, kind = CAPABILITIES_CHANGED\<rparr>],
            destroyedWindows = []\<rparr>"
  unfolding armed_def rawChange_single [OF single_start]
  by (simp add: category_samples setTimer_def startWorkspaceWatcher_def initialModule_def
      DEBOUNCE_MS_def)

theorem stop_and_destroy_witness:
  "(500, 1, CAPABILITIES_CHANGED) \<notin>
     set (deliveries (armed\<lparr>destroyedWindows := [1]\<rparr>) [(200, RawChange (Some otherFile))] 1000) \<and>
   mset (deliveries (stopWorkspaceWatcher armed) [(200, RawChange (Some otherFile)), (300, Stop)]
           1000)
   = {#(500, 1, CAPABILITIES_CHANGED)#}"
proof -
  have h: "held armed" by (simp add: armed_eq held_def)
  have evs: "\<forall>(t, e) \<in> set [(200 :: nat, RawChange (Some otherFile)), (300, Stop)].
               afterStop e \<and> t \<le> (1000 :: nat)"
    by (simp add: afterStop_def)
  from stop_and_destroy
         [of "armed\<lparr>destroyedWindows := [1]\<rparr>" "[(200, RawChange (Some otherFile))]" 1000]
  have "(500, 1, CAPABILITIES_CHANGED) \<notin>
     set (deliveries (armed\<lparr>destroyedWindows := [1]\<rparr>) [(200, RawChange (Some otherFile))] 1000)"
    by auto
  moreover from stop_and_destroy
         [of armed "[(200, RawChange (Some otherFile)), (300, Stop)]" 1000] h evs
  have "mset (deliveries (stopWorkspaceWatcher armed)
                [(200, RawChange (Some otherFile)), (300, Stop)] 1000)
        = {#(500, 1, CAPABILITIES_CHANGED)#}"
    by (simp add: armed_eq notification_def isDestroyed_def)
  ultimately show ?thesis by blast
qed

text \<open>
  C3 as the spec states it fails: a capability change at time 0 arms the timer, the
  watcher is stopped at time 100, and the notification is still delivered at time 500.
\<close>

theorem stop_pending_timer_counterexample:
  "deliveries (startWorkspaceWatcher 1 True initialModule)
     [(0, RawChange (Some skillFile)), (100, Stop)] 1000
   = [(500, 1, CAPABILITIES_CHANGED)] \<and>
   deliveries (stopWorkspaceWatcher armed) [] 1000 = [(500, 1, CAPABILITIES_CHANGED)]"
proof -
  let ?m0 = "startWorkspaceWatcher 1 True initialModule"
  have stopped: "stopWorkspaceWatcher armed =
        \<lparr>watcher = None, started = [\<lparr>isOpen = False, win = 1\<rparr>],
         timeouts = [\<lparr>due = 500, owner = 0, kind = CAPABILITIES_CHANGED\<rparr>],
         destroyedWindows = []\<rparr>"
    by (simp add: armed_eq stopWorkspaceWatcher_def)
  have last: "deliveries (stopWorkspaceWatcher armed) [] 1000 = [(500, 1, CAPABILITIES_CHANGED)]"
    unfolding stopped by (simp add: deliveries_def advance_def notification_def isDestroyed_def)
  have a0: "advance 0 ?m0 = ([], ?m0)"
    by (simp add: advance_def startWorkspaceWatcher_def initialModule_def)
  have h0: "handle 0 (RawChange (Some skillFile)) ?m0 = armed"
    by (simp add: handle_def armed_def)
  have a1: "advance 100 armed = ([], armed)"
    by (simp add: armed_eq advance_def)
  have h1: "handle 100 Stop armed = stopWorkspaceWatcher armed"
    by (simp add: handle_def)
  have "deliveries ?m0 [(0, RawChange (Some skillFile)), (100, Stop)] 1000
        = deliveries (stopWorkspaceWatcher armed) [] 1000"
    by (simp only: deliveries_Cons a0 h0 a1 h1 fst_conv snd_conv append_Nil)
  with last show ?thesis by simp
qed

end
